theory Spec2Isabelle
  imports Main "HOL-Library.Word"
begin

unbundle bit_operations_syntax

section \<open>Data model\<close>

text \<open>
  A Go \<open>string\<close> is an immutable sequence of bytes, so it is a \<open>string\<close> here
  (\<open>char\<close> is one byte); \<open>len\<close> is \<open>length\<close> and a slice \<open>s[a:b]\<close> is
  \<open>take (b - a) (drop a s)\<close>. Go's \<open>int\<close> is taken at its 64-bit width: the values
  are \<open>int\<close> and the three subtractions of the source that can leave the range
  (\<open>length - len(clippingMessage)\<close>, \<open>maxLineLength - len(clippingMessage)\<close> and
  \<open>splitMax - 1\<close>) wrap around as two's complement. A slice expression whose bounds are
  out of range panics; the panic is a value of the result type.
\<close>

type_synonym rune = int

datatype panic = SliceBoundsOutOfRange

definition wrap64 :: "int \<Rightarrow> int" where
  "wrap64 x = signed_take_bit 63 x"

definition is_int64 :: "int \<Rightarrow> bool" where
  "is_int64 x \<longleftrightarrow> - (2 ^ 63) \<le> x \<and> x < 2 ^ 63"

definition byte :: "char \<Rightarrow> int" where
  "byte c = of_char c"

definition newline :: char where
  "newline = CHR 0x0A"

section \<open>Package unicode/utf8\<close>

definition RuneError :: rune where
  "RuneError = 0xFFFD"

definition RuneSelf :: int where
  "RuneSelf = 0x80"

definition UTFMax :: int where
  "UTFMax = 4"

text \<open>The table \<open>first\<close>: information about the first byte of an encoding
  (\<open>as = 0xF0\<close> for ASCII, \<open>xx = 0xF1\<close> for an invalid first byte, otherwise the
  index of the accept range in the high nibble and the size in the low one).\<close>

definition first :: "char \<Rightarrow> int" where
  "first c = (let b = byte c in
     if b < 0x80 then 0xF0
     else if b < 0xC2 then 0xF1
     else if b < 0xE0 then 0x02
     else if b = 0xE0 then 0x13
     else if b < 0xED then 0x03
     else if b = 0xED then 0x23
     else if b < 0xF0 then 0x03
     else if b = 0xF0 then 0x34
     else if b < 0xF4 then 0x04
     else if b = 0xF4 then 0x44
     else 0xF1)"

text \<open>The table \<open>acceptRanges\<close>: the range of valid second bytes.\<close>

definition acceptRanges :: "int \<Rightarrow> int \<times> int" where
  "acceptRanges i =
     (if i = 0 then (0x80, 0xBF)
      else if i = 1 then (0xA0, 0xBF)
      else if i = 2 then (0x80, 0x9F)
      else if i = 3 then (0x90, 0xBF)
      else (0x80, 0x8F))"

definition RuneStart :: "char \<Rightarrow> bool" where
  "RuneStart c \<longleftrightarrow> byte c AND 0xC0 \<noteq> 0x80"

text \<open>A continuation byte of an encoding, \<open>10xxxxxx\<close>.\<close>

definition continuation :: "char \<Rightarrow> bool" where
  "continuation c \<longleftrightarrow> 0x80 \<le> byte c \<and> byte c \<le> 0xBF"

text \<open>\<open>utf8.DecodeRuneInString\<close>: the first rune of \<open>s\<close> and its width in bytes;
  \<open>(RuneError, 0)\<close> for the empty string and \<open>(RuneError, 1)\<close> for an invalid
  encoding.\<close>

definition DecodeRuneInString :: "string \<Rightarrow> rune \<times> nat" where
  "DecodeRuneInString s =
     (if length s < 1 then (RuneError, 0)
      else let s0 = byte (s ! 0); x = first (s ! 0) in
        if x \<ge> 0xF0 then (if x = 0xF1 then RuneError else s0, 1)
        else let sz = nat (x AND 7); accept = acceptRanges (drop_bit 4 x) in
          if length s < sz then (RuneError, 1)
          else let s1 = byte (s ! 1) in
            if s1 < fst accept \<or> snd accept < s1 then (RuneError, 1)
            else if sz \<le> 2 then (push_bit 6 (s0 AND 0x1F) OR (s1 AND 0x3F), 2)
            else let s2 = byte (s ! 2) in
              if s2 < 0x80 \<or> 0xBF < s2 then (RuneError, 1)
              else if sz \<le> 3 then
                (push_bit 12 (s0 AND 0x0F) OR push_bit 6 (s1 AND 0x3F) OR (s2 AND 0x3F), 3)
              else let s3 = byte (s ! 3) in
                if s3 < 0x80 \<or> 0xBF < s3 then (RuneError, 1)
                else (push_bit 18 (s0 AND 0x07) OR push_bit 12 (s1 AND 0x3F)
                        OR push_bit 6 (s2 AND 0x3F) OR (s3 AND 0x3F), 4))"

text \<open>A rune of a non-empty string is 1 to 4 bytes wide and lies within the string.\<close>

lemma first_size: "first c < 0xF0 \<Longrightarrow> nat (first c AND 7) \<in> {2, 3, 4}"
  by (simp add: first_def Let_def split: if_splits)

lemma DecodeRuneInString_width_cases:
  "s \<noteq> [] \<Longrightarrow>
   snd (DecodeRuneInString s) = 1
   \<or> (first (s ! 0) < 0xF0 \<and> nat (first (s ! 0) AND 7) \<le> length s
       \<and> (snd (DecodeRuneInString s) = 2 \<and> nat (first (s ! 0) AND 7) \<le> 2
          \<or> snd (DecodeRuneInString s) = 3 \<and> nat (first (s ! 0) AND 7) = 3
          \<or> snd (DecodeRuneInString s) = 4 \<and> 3 < nat (first (s ! 0) AND 7)))"
  by (auto simp: DecodeRuneInString_def Let_def)

lemma DecodeRuneInString_width:
  assumes "s \<noteq> []"
  shows "1 \<le> snd (DecodeRuneInString s) \<and> snd (DecodeRuneInString s) \<le> 4
     \<and> snd (DecodeRuneInString s) \<le> length s"
proof -
  have l: "1 \<le> length s" using assms by (cases s) simp_all
  from DecodeRuneInString_width_cases [OF assms]
  show ?thesis
  proof
    assume "snd (DecodeRuneInString s) = 1"
    then show ?thesis using l by simp
  next
    assume a: "first (s ! 0) < 0xF0 \<and> nat (first (s ! 0) AND 7) \<le> length s
       \<and> (snd (DecodeRuneInString s) = 2 \<and> nat (first (s ! 0) AND 7) \<le> 2
          \<or> snd (DecodeRuneInString s) = 3 \<and> nat (first (s ! 0) AND 7) = 3
          \<or> snd (DecodeRuneInString s) = 4 \<and> 3 < nat (first (s ! 0) AND 7))"
    then have "nat (first (s ! 0) AND 7) \<in> {2, 3, 4}" using first_size by blast
    then show ?thesis using a by auto
  qed
qed

text \<open>The backward scan of \<open>utf8.DecodeLastRuneInString\<close> for the start of the last
  rune: \<open>for start--; start >= lim; start-- { if RuneStart(s[start]) { break } }\<close>,
  entered here after the initial \<open>start--\<close>.\<close>

function scan_back :: "string \<Rightarrow> int \<Rightarrow> int \<Rightarrow> int" where
  "scan_back s lim start =
     (if start \<ge> lim then
        (if RuneStart (s ! nat start) then start else scan_back s lim (start - 1))
      else start)"
  by pat_completeness auto
termination
  by (relation "measure (\<lambda>(s, lim, start). nat (start - lim + 1))") auto

declare scan_back.simps [simp del]

text \<open>\<open>utf8.DecodeLastRuneInString\<close>: the last rune of \<open>s\<close> and its width;
  \<open>(RuneError, 0)\<close> for the empty string and \<open>(RuneError, 1)\<close> for an invalid
  encoding.\<close>

definition DecodeLastRuneInString :: "string \<Rightarrow> rune \<times> nat" where
  "DecodeLastRuneInString s =
     (let end = int (length s) in
      if end = 0 then (RuneError, 0)
      else let start = end - 1; r = byte (s ! nat start) in
        if r < RuneSelf then (r, 1)
        else let lim = (if end - UTFMax < 0 then 0 else end - UTFMax);
                 start = scan_back s lim (start - 1);
                 start = (if start < 0 then 0 else start);
                 (r, size) = DecodeRuneInString (drop (nat start) s) in
          if start + int size \<noteq> end then (RuneError, 1) else (r, size))"

section \<open>ClipMessage\<close>

text \<open>The slice \<open>s[:k]\<close>, which panics unless \<open>0 \<le> k \<le> len(s)\<close>.\<close>

definition slice_to :: "string \<Rightarrow> int \<Rightarrow> panic + string" where
  "slice_to s k =
     (if k < 0 \<or> int (length s) < k then Inl SliceBoundsOutOfRange
      else Inr (take (nat k) s))"

definition default_clippingMessage :: string where
  "default_clippingMessage = '' <clipped message>''"

definition effective_marker :: "string \<Rightarrow> string" where
  "effective_marker clippingMessage =
     (if clippingMessage = [] then default_clippingMessage else clippingMessage)"

text \<open>The loop \<open>for len(text) > 0\<close> of \<open>ClipMessage\<close>, which drops the last byte
  as long as the last rune decodes to \<open>utf8.RuneError\<close>.\<close>

function clip_back :: "string \<Rightarrow> string" where
  "clip_back text =
     (if length text > 0 then
        (if fst (DecodeLastRuneInString text) = RuneError
         then clip_back (take (length text - 1) text)
         else text)
      else text)"
  by pat_completeness auto
termination
  by (relation "measure length") auto

declare clip_back.simps [simp del]

definition ClipMessage :: "string \<Rightarrow> int \<Rightarrow> string \<Rightarrow> panic + string" where
  "ClipMessage text length' clippingMessage =
     (let clippingMessage = effective_marker clippingMessage in
      if int (length text) > length' then
        (case slice_to text (wrap64 (length' - int (length clippingMessage))) of
           Inl e \<Rightarrow> Inl e
         | Inr text \<Rightarrow> Inr (clip_back text @ clippingMessage))
      else Inr text)"

text \<open>A string ends at a complete character when it is empty or its last rune does not
  decode to the error result \<open>(RuneError, 1)\<close>; a validly encoded U+FFFD decodes to
  \<open>(RuneError, 3)\<close> and is complete.\<close>

definition ends_complete :: "string \<Rightarrow> bool" where
  "ends_complete s \<longleftrightarrow>
     s = [] \<or> \<not> (fst (DecodeLastRuneInString s) = RuneError \<and> snd (DecodeLastRuneInString s) \<le> 1)"

section \<open>ClipOrSplitMessage\<close>

text \<open>The inner loop \<open>for wasted < 4 && wasted < length\<close>. The slice
  \<open>remainingText[:length-wasted]\<close> is within bounds there, since the outer loop runs
  it only while \<open>len(remainingText) > length\<close> and \<open>0 \<le> wasted < length\<close>.\<close>

function chunk_loop :: "string \<Rightarrow> int \<Rightarrow> int \<Rightarrow> string \<Rightarrow> string" where
  "chunk_loop remainingText length' wasted chunk =
     (if wasted < 4 \<and> wasted < length' then
        (let chunk = take (nat (length' - wasted)) remainingText in
         if fst (DecodeLastRuneInString chunk) = RuneError
         then chunk_loop remainingText length' (wasted + 1) chunk
         else chunk)
      else chunk)"
  by pat_completeness auto
termination
  by (relation "measure (\<lambda>(r, l, wasted, c). nat (4 - wasted))") auto

declare chunk_loop.simps [simp del]

text \<open>One iteration of the outer loop, on the state \<open>(msgParts, remainingText)\<close>:
  the chunk is appended and \<open>remainingText = remainingText[len(chunk):]\<close>.\<close>

definition split_body :: "int \<Rightarrow> string list \<times> string \<Rightarrow> string list \<times> string" where
  "split_body length' st =
     (let chunk = chunk_loop (snd st) length' 0 [] in
      (fst st @ [chunk], drop (length chunk) (snd st)))"

text \<open>The outer loop
  \<open>for len(msgParts) < splitMax-1 && len(remainingText) > length\<close>.\<close>

function split_loop :: "int \<Rightarrow> int \<Rightarrow> string list \<times> string \<Rightarrow> string list \<times> string" where
  "split_loop length' splitMax st =
     (if int (length (fst st)) < wrap64 (splitMax - 1) \<and> int (length (snd st)) > length'
      then split_loop length' splitMax (split_body length' st)
      else st)"
  by pat_completeness auto
termination
  by (relation "measure (\<lambda>(l, splitMax, st). nat (wrap64 (splitMax - 1) - int (length (fst st))))")
    (auto simp: split_body_def Let_def)

declare split_loop.simps [simp del]

definition ClipOrSplitMessage :: "string \<Rightarrow> int \<Rightarrow> string \<Rightarrow> int \<Rightarrow> panic + string list" where
  "ClipOrSplitMessage text length' clippingMessage splitMax =
     (case split_loop length' splitMax ([], text) of
        (msgParts, remainingText) \<Rightarrow>
          (case ClipMessage remainingText length' clippingMessage of
             Inl e \<Rightarrow> Inl e
           | Inr t \<Rightarrow> Inr (msgParts @ [t])))"

text \<open>Strings that fit in memory together: the lengths of the text and of the
  effective marker add up to less than \<open>2 ^ 63\<close>.\<close>

definition go_sized :: "string \<Rightarrow> string \<Rightarrow> bool" where
  "go_sized text clippingMessage \<longleftrightarrow>
     int (length text) + int (length (effective_marker clippingMessage)) < 2 ^ 63"

text \<open>The states \<open>(msgParts, remainingText)\<close> at the head of the outer loop, one for
  each iteration, when \<open>ClipOrSplitMessage\<close> runs on \<open>text\<close>.\<close>

inductive iterates :: "int \<Rightarrow> int \<Rightarrow> string \<Rightarrow> string list \<times> string \<Rightarrow> bool"
  for length' :: int and splitMax :: int and t :: string where
  start: "iterates length' splitMax t ([], t)"
| step: "iterates length' splitMax t st \<Longrightarrow>
         int (length (fst st)) < wrap64 (splitMax - 1) \<Longrightarrow> int (length (snd st)) > length' \<Longrightarrow>
         iterates length' splitMax t (split_body length' st)"

section \<open>GetSubLines\<close>

text \<open>The table \<open>asciiSpace\<close> of package strings.\<close>

definition asciiSpace :: "char \<Rightarrow> bool" where
  "asciiSpace c \<longleftrightarrow> byte c \<in> {0x09, 0x0A, 0x0B, 0x0C, 0x0D, 0x20}"

text \<open>\<open>unicode.IsSpace\<close>: the Latin-1 spaces and the other code points with the
  property White_Space.\<close>

definition IsSpace :: "rune \<Rightarrow> bool" where
  "IsSpace r \<longleftrightarrow>
     (if 0 \<le> r \<and> r \<le> 0xFF then r \<in> {0x09, 0x0A, 0x0B, 0x0C, 0x0D, 0x20, 0x85, 0xA0}
      else r = 0x1680 \<or> (0x2000 \<le> r \<and> r \<le> 0x200A) \<or> r = 0x2028 \<or> r = 0x2029
        \<or> r = 0x202F \<or> r = 0x205F \<or> r = 0x3000)"

text \<open>\<open>indexFunc(s, unicode.IsSpace, false)\<close>, a range loop from byte index \<open>i\<close>: the
  index of the first rune that is not a space, or \<open>-1\<close>.\<close>

function indexFunc :: "string \<Rightarrow> nat \<Rightarrow> int" where
  "indexFunc s i =
     (if i < length s then
        (if \<not> IsSpace (fst (DecodeRuneInString (drop i s))) then int i
         else indexFunc s (i + snd (DecodeRuneInString (drop i s))))
      else - 1)"
  by pat_completeness auto
termination
proof (relation "measure (\<lambda>(s, i). length s - i)")
  show "wf (measure (\<lambda>(s, i). length s - i))" by simp
next
  fix s :: string and i :: nat
  assume "i < length s"
  then have "1 \<le> snd (DecodeRuneInString (drop i s))"
    using DecodeRuneInString_width [of "drop i s"] by simp
  then show "((s, i + snd (DecodeRuneInString (drop i s))), (s, i))
      \<in> measure (\<lambda>(s, i). length s - i)"
    using \<open>i < length s\<close> by simp
qed

declare indexFunc.simps [simp del]

definition TrimLeftFunc :: "string \<Rightarrow> string" where
  "TrimLeftFunc s = (let i = indexFunc s 0 in if i = - 1 then [] else drop (nat i) s)"

text \<open>\<open>lastIndexFunc(s, unicode.IsSpace, false)\<close>, the loop
  \<open>for i := len(s); i > 0; \<close> from \<open>i\<close>: the index of the last rune that is not a space,
  or \<open>-1\<close>.\<close>

function lastIndexFunc :: "string \<Rightarrow> int \<Rightarrow> int" where
  "lastIndexFunc s i =
     (if i > 0 then
        (case DecodeLastRuneInString (take (nat i) s) of
           (r, w) \<Rightarrow>
             if \<not> IsSpace r then i - int w
             else if w = 0 then - 1 else lastIndexFunc s (i - int w))
      else - 1)"
  by pat_completeness auto
termination
  by (relation "measure (\<lambda>(s, i). nat i)") auto

declare lastIndexFunc.simps [simp del]

definition TrimRightFunc :: "string \<Rightarrow> string" where
  "TrimRightFunc s =
     (let i = lastIndexFunc s (int (length s));
          i = (if i \<ge> 0 \<and> byte (s ! nat i) \<ge> RuneSelf
               then i + int (snd (DecodeRuneInString (drop (nat i) s)))
               else i + 1)
      in take (nat i) s)"

definition TrimFunc :: "string \<Rightarrow> string" where
  "TrimFunc s = TrimRightFunc (TrimLeftFunc s)"

text \<open>The two loops of \<open>strings.TrimSpace\<close>: the number of leading ASCII spaces
  (stopping at a byte that is not ASCII), and then the end of the text without its
  trailing ASCII spaces.\<close>

fun space_start :: "string \<Rightarrow> nat" where
  "space_start [] = 0"
| "space_start (c # cs) =
     (if byte c \<ge> RuneSelf then 0 else if asciiSpace c then Suc (space_start cs) else 0)"

function space_stop :: "string \<Rightarrow> nat \<Rightarrow> nat \<Rightarrow> nat" where
  "space_stop s start stop =
     (if stop > start then
        (if byte (s ! (stop - 1)) \<ge> RuneSelf then stop
         else if asciiSpace (s ! (stop - 1)) then space_stop s start (stop - 1) else stop)
      else stop)"
  by pat_completeness auto
termination
  by (relation "measure (\<lambda>(s, start, stop). stop)") auto

declare space_stop.simps [simp del]

definition TrimSpace :: "string \<Rightarrow> string" where
  "TrimSpace s =
     (let start = space_start s in
      if start < length s \<and> byte (s ! start) \<ge> RuneSelf then TrimFunc (drop start s)
      else let stop = space_stop s start (length s) in
        if stop > start \<and> byte (s ! (stop - 1)) \<ge> RuneSelf
        then TrimRightFunc (take (stop - start) (drop start s))
        else take (stop - start) (drop start s))"

text \<open>\<open>strings.Split(s, "\n")\<close>: the pieces of \<open>s\<close> between newlines; one empty
  piece for the empty string.\<close>

function Split :: "string \<Rightarrow> string list" where
  "Split s =
     (if newline \<in> set s
      then takeWhile (\<lambda>c. c \<noteq> newline) s # Split (drop 1 (dropWhile (\<lambda>c. c \<noteq> newline) s))
      else [s])"
  by pat_completeness auto
termination
proof (relation "measure length")
  show "wf (measure length)" by simp
next
  fix s :: string
  assume "newline \<in> set s"
  then have "dropWhile (\<lambda>c. c \<noteq> newline) s \<noteq> []" by (simp add: dropWhile_eq_Nil_conv)
  then have "length (drop 1 (dropWhile (\<lambda>c. c \<noteq> newline) s)) < length (dropWhile (\<lambda>c. c \<noteq> newline) s)"
    by simp
  also have "\<dots> \<le> length s" by (rule length_dropWhile_le)
  finally show "(drop 1 (dropWhile (\<lambda>c. c \<noteq> newline) s), s) \<in> measure length" by simp
qed

declare Split.simps [simp del]

text \<open>\<open>for i := range line\<close>: the byte indices at which the runes of \<open>line\<close> start,
  from index \<open>i\<close> on; an invalid byte is a rune of width 1.\<close>

function range_from :: "string \<Rightarrow> nat \<Rightarrow> nat list" where
  "range_from line i =
     (if i < length line
      then i # range_from line (i + snd (DecodeRuneInString (drop i line)))
      else [])"
  by pat_completeness auto
termination
proof (relation "measure (\<lambda>(line, i). length line - i)")
  show "wf (measure (\<lambda>(line, i). length line - i))" by simp
next
  fix line :: string and i :: nat
  assume "i < length line"
  then have "1 \<le> snd (DecodeRuneInString (drop i line))"
    using DecodeRuneInString_width [of "drop i line"] by simp
  then show "((line, i + snd (DecodeRuneInString (drop i line))), (line, i))
      \<in> measure (\<lambda>(line, i). length line - i)"
    using \<open>i < length line\<close> by simp
qed

declare range_from.simps [simp del]

text \<open>The body of the range loop on the state
  \<open>(lines, splitStart, startOfPreviousRune)\<close>. The slice
  \<open>line[splitStart:startOfPreviousRune]\<close> is within bounds.\<close>

definition sub_step ::
  "string \<Rightarrow> int \<Rightarrow> string \<Rightarrow> string list \<times> nat \<times> nat \<Rightarrow> nat \<Rightarrow> string list \<times> nat \<times> nat" where
  "sub_step line maxLineLength clippingMessage st i =
     (case st of (lines, splitStart, startOfPreviousRune) \<Rightarrow>
        if int i - int splitStart > wrap64 (maxLineLength - int (length clippingMessage))
        then (lines @ [take (startOfPreviousRune - splitStart) (drop splitStart line) @ clippingMessage],
              startOfPreviousRune, i)
        else (lines, splitStart, i))"

text \<open>The splitting of one long line: the range loop and the last append
  \<open>line[splitStart:]\<close>.\<close>

definition split_line :: "string \<Rightarrow> int \<Rightarrow> string \<Rightarrow> string list \<Rightarrow> string list" where
  "split_line line maxLineLength clippingMessage lines =
     (case foldl (sub_step line maxLineLength clippingMessage) (lines, 0, 0) (range_from line 0) of
        (lines, splitStart, startOfPreviousRune) \<Rightarrow> lines @ [drop splitStart line])"

text \<open>The body of the loop over the lines.\<close>

definition line_step :: "int \<Rightarrow> string \<Rightarrow> string list \<Rightarrow> string \<Rightarrow> string list" where
  "line_step maxLineLength clippingMessage lines line =
     (if line = [] then lines
      else if maxLineLength = 0 \<or> int (length line) \<le> maxLineLength then lines @ [line]
      else split_line line maxLineLength clippingMessage lines)"

definition GetSubLines :: "string \<Rightarrow> int \<Rightarrow> string \<Rightarrow> string list" where
  "GetSubLines message maxLineLength clippingMessage =
     (let clippingMessage = effective_marker clippingMessage in
      foldl (line_step maxLineLength clippingMessage) [] (Split (TrimSpace message)))"

text \<open>The widths in bytes of the runes of a line, as the range loop sees them.\<close>

definition rune_widths :: "string \<Rightarrow> nat list" where
  "rune_widths line = map (\<lambda>i. snd (DecodeRuneInString (drop i line))) (range_from line 0)"

text \<open>A fragment cut from a line at the starts of its runes: the line itself, the line
  from one rune start to a later one with the marker appended, or the rest of the line
  from a rune start.\<close>

definition cut_at_runes :: "string \<Rightarrow> string \<Rightarrow> string \<Rightarrow> bool" where
  "cut_at_runes line marker f \<longleftrightarrow>
     f = line
     \<or> (\<exists>a\<in>set (range_from line 0). \<exists>b\<in>set (range_from line 0).
           a \<le> b \<and> f = take (b - a) (drop a line) @ marker)
     \<or> (\<exists>a\<in>set (range_from line 0). f = drop a line)"

section \<open>Rune boundaries\<close>

text \<open>The rune boundaries of a text: the byte offsets at which a rune starts, and the end
  of the text.\<close>

definition rune_boundaries :: "string \<Rightarrow> nat list" where
  "rune_boundaries s = range_from s 0 @ [length s]"

text \<open>A text in which the range loop meets no rune U+FFFD: it is valid UTF-8 (an invalid
  byte decodes to U+FFFD) and the replacement character U+FFFD is not encoded in it.\<close>

definition clean_utf8 :: "string \<Rightarrow> bool" where
  "clean_utf8 s \<longleftrightarrow>
     list_all (\<lambda>i. fst (DecodeRuneInString (drop i s)) \<noteq> RuneError) (range_from s 0)"

text \<open>A piece of a text between two of its rune boundaries.\<close>

definition between_runes :: "string \<Rightarrow> string \<Rightarrow> bool" where
  "between_runes t f \<longleftrightarrow>
     (\<exists>a\<in>set (rune_boundaries t). \<exists>b\<in>set (rune_boundaries t).
        a \<le> b \<and> f = take (b - a) (drop a t))"

section \<open>RemoveEmptyNewLines\<close>

text \<open>\<open>strings.Trim(s, cutset)\<close> for a cutset of one ASCII byte \<open>c\<close>, which is
  \<open>trimLeftByte(trimRightByte(s, c), c)\<close>.\<close>

fun trimLeftByte :: "string \<Rightarrow> char \<Rightarrow> string" where
  "trimLeftByte [] c = []"
| "trimLeftByte (x # xs) c = (if x = c then trimLeftByte xs c else x # xs)"

function trimRightByte :: "string \<Rightarrow> char \<Rightarrow> string" where
  "trimRightByte s c =
     (if length s > 0 \<and> s ! (length s - 1) = c then trimRightByte (take (length s - 1) s) c
      else s)"
  by pat_completeness auto
termination
  by (relation "measure (\<lambda>(s, c). length s)") auto

declare trimRightByte.simps [simp del]

definition Trim_byte :: "string \<Rightarrow> char \<Rightarrow> string" where
  "Trim_byte s c = trimLeftByte (trimRightByte s c) c"

text \<open>\<open>emptyLineMatcher.ReplaceAllString(src, "\n")\<close> for the pattern \<open>\n+\<close>: every
  leftmost, longest run of newlines is replaced by one newline.\<close>

function ReplaceAllString :: "string \<Rightarrow> string" where
  "ReplaceAllString [] = []"
| "ReplaceAllString (c # cs) =
     (if c = newline then newline # ReplaceAllString (dropWhile (\<lambda>x. x = newline) cs)
      else c # ReplaceAllString cs)"
  by pat_completeness auto
termination
  by (relation "measure length") (auto simp: less_Suc_eq_le length_dropWhile_le)

definition RemoveEmptyNewLines :: "string \<Rightarrow> string" where
  "RemoveEmptyNewLines msg = ReplaceAllString (Trim_byte msg newline)"

text \<open>Two newline characters in a row somewhere in the string.\<close>

fun adjacent_newlines :: "string \<Rightarrow> bool" where
  "adjacent_newlines (a # b # r) = ((a = newline \<and> b = newline) \<or> adjacent_newlines (b # r))"
| "adjacent_newlines r = False"

section \<open>Example texts\<close>

text \<open>\<open>a\<close>, the euro sign (E2 82 AC) and \<open>b\<close>.\<close>

definition euro_text :: string where
  "euro_text = [CHR ''a'', CHR 0xE2, CHR 0x82, CHR 0xAC, CHR ''b'']"

text \<open>\<open>a\<close>, U+FFFD twice (EF BF BD, the replacement character, validly encoded) and the
  euro sign: valid UTF-8.\<close>

definition replacement_text :: string where
  "replacement_text = [CHR ''a'', CHR 0xEF, CHR 0xBF, CHR 0xBD, CHR 0xEF, CHR 0xBF, CHR 0xBD,
     CHR 0xE2, CHR 0x82, CHR 0xAC]"

text \<open>The euro sign twice.\<close>

definition euro_twice :: string where
  "euro_twice = [CHR 0xE2, CHR 0x82, CHR 0xAC, CHR 0xE2, CHR 0x82, CHR 0xAC]"

text \<open>\<open>a\<close> and five stray continuation bytes: not valid UTF-8.\<close>

definition stray_text :: string where
  "stray_text = [CHR ''a'', CHR 0x80, CHR 0x80, CHR 0x80, CHR 0x80, CHR 0x80]"

section \<open>Auxiliary facts\<close>

lemma wrap64_id: "is_int64 x \<Longrightarrow> wrap64 x = x"
  by (simp add: wrap64_def is_int64_def signed_take_bit_int_eq_self)

lemma wrap64_range: "is_int64 (wrap64 x)"
  unfolding wrap64_def is_int64_def
  using signed_take_bit_int_greater_eq_minus_exp [of 63 x] signed_take_bit_int_less_exp [of 63 x]
  by simp

lemma wrap64_under: "- (2 ^ 64) \<le> x \<Longrightarrow> x < - (2 ^ 63) \<Longrightarrow> wrap64 x = x + 2 ^ 64"
proof -
  assume a: "- (2 ^ 64) \<le> x" "x < - (2 ^ 63)"
  have "signed_take_bit 63 (x + 2 ^ 64) = signed_take_bit 63 x"
    by (simp add: signed_take_bit_eq_iff_take_bit_eq take_bit_eq_mod)
  moreover have "signed_take_bit 63 (x + 2 ^ 64) = x + 2 ^ 64"
    using a by (intro signed_take_bit_int_eq_self) auto
  ultimately show ?thesis by (simp add: wrap64_def)
qed

lemma effective_marker_nonempty: "effective_marker m \<noteq> []"
  by (simp add: effective_marker_def default_clippingMessage_def)

lemma clip_back_length: "length (clip_back t) \<le> length t"
proof (induction t rule: clip_back.induct)
  case (1 tx)
  show ?case
  proof (cases "length tx > 0 \<and> fst (DecodeLastRuneInString tx) = RuneError")
    case True
    then have "clip_back tx = clip_back (take (length tx - 1) tx)"
      by (subst clip_back.simps) simp
    moreover have "length (clip_back (take (length tx - 1) tx)) \<le> length (take (length tx - 1) tx)"
      using True "1.IH" by simp
    ultimately show ?thesis by simp
  next
    case False
    then have "clip_back tx = tx" by (subst clip_back.simps) auto
    then show ?thesis by simp
  qed
qed

lemma clip_back_prefix: "clip_back t = take (length (clip_back t)) t"
proof (induction t rule: clip_back.induct)
  case (1 tx)
  show ?case
  proof (cases "length tx > 0 \<and> fst (DecodeLastRuneInString tx) = RuneError")
    case True
    let ?t = "take (length tx - 1) tx"
    have eq: "clip_back tx = clip_back ?t"
      using True by (subst clip_back.simps) simp
    have "clip_back ?t = take (length (clip_back ?t)) ?t"
      using True "1.IH" by simp
    moreover have "length (clip_back ?t) \<le> length tx - 1"
      using clip_back_length [of ?t] by simp
    ultimately have "clip_back ?t = take (length (clip_back ?t)) tx"
      by (simp add: min_def)
    then show ?thesis using eq by simp
  next
    case False
    then have "clip_back tx = tx" by (subst clip_back.simps) auto
    then show ?thesis by simp
  qed
qed

lemma ClipMessage_short: "int (length text) \<le> l \<Longrightarrow> ClipMessage text l m = Inr text"
  by (simp add: ClipMessage_def Let_def)

lemma ClipMessage_long_Inr:
  assumes "ClipMessage text l m = Inr r" and "l < int (length text)"
    and "is_int64 l" and "go_sized text m"
  shows "int (length (effective_marker m)) \<le> l
    \<and> r = clip_back (take (nat (l - int (length (effective_marker m)))) text) @ effective_marker m"
proof -
  let ?c = "int (length (effective_marker m))"
  let ?k = "wrap64 (l - ?c)"
  from assms(1,2) have k: "0 \<le> ?k" "?k \<le> int (length text)"
    and r: "r = clip_back (take (nat ?k) text) @ effective_marker m"
    by (auto simp: ClipMessage_def Let_def slice_to_def split: if_splits)
  have "\<not> l - ?c < - (2 ^ 63)"
  proof
    assume u: "l - ?c < - (2 ^ 63)"
    have "- (2 ^ 64) \<le> l - ?c"
      using assms(3,4) by (simp add: is_int64_def go_sized_def)
    then have "?k = l - ?c + 2 ^ 64" using u by (rule wrap64_under)
    then show False using k(2) assms(3,4) by (simp add: is_int64_def go_sized_def)
  qed
  then have "is_int64 (l - ?c)" using assms(3) by (simp add: is_int64_def)
  then have "?k = l - ?c" by (rule wrap64_id)
  then show ?thesis using k r by simp
qed

lemma ClipMessage_length:
  assumes "ClipMessage text l m = Inr r" and "is_int64 l" and "go_sized text m"
  shows "int (length r) \<le> max l (int (length text))" and "l < int (length text) \<Longrightarrow> int (length r) \<le> l"
proof -
  show b: "l < int (length text) \<Longrightarrow> int (length r) \<le> l"
  proof -
    assume lt: "l < int (length text)"
    let ?c = "int (length (effective_marker m))"
    from ClipMessage_long_Inr [OF assms(1) lt assms(2,3)]
    have c: "?c \<le> l" and r: "r = clip_back (take (nat (l - ?c)) text) @ effective_marker m"
      by simp_all
    have "length (clip_back (take (nat (l - ?c)) text)) \<le> nat (l - ?c)"
      using clip_back_length [of "take (nat (l - ?c)) text"] by simp
    then show ?thesis using c r by simp
  qed
  show "int (length r) \<le> max l (int (length text))"
  proof (cases "l < int (length text)")
    case True then show ?thesis using b by simp
  next
    case False
    then have "r = text" using assms(1) by (simp add: ClipMessage_def Let_def)
    then show ?thesis by simp
  qed
qed

lemma chunk_loop_prefix:
  "c = take (length c) r \<Longrightarrow> chunk_loop r l w c = take (length (chunk_loop r l w c)) r"
proof (induction r l w c rule: chunk_loop.induct)
  case (1 r l w c)
  let ?c = "take (nat (l - w)) r"
  show ?case
  proof (cases "w < 4 \<and> w < l")
    case False
    then have "chunk_loop r l w c = c" by (subst chunk_loop.simps) auto
    then show ?thesis using "1.prems" by simp
  next
    case True
    show ?thesis
    proof (cases "fst (DecodeLastRuneInString ?c) = RuneError")
      case e: True
      have eq: "chunk_loop r l w c = chunk_loop r l (w + 1) ?c"
        using True e by (subst chunk_loop.simps) (simp add: Let_def)
      have "chunk_loop r l (w + 1) ?c = take (length (chunk_loop r l (w + 1) ?c)) r"
        using True e by (intro "1.IH") (simp_all add: min_def)
      then show ?thesis using eq by simp
    next
      case e: False
      have "chunk_loop r l w c = ?c"
        using True e by (subst chunk_loop.simps) (simp add: Let_def)
      then show ?thesis by (simp add: min_def)
    qed
  qed
qed

lemma split_body_concat:
  "concat (fst (split_body l st)) @ snd (split_body l st) = concat (fst st) @ snd st"
proof -
  let ?c = "chunk_loop (snd st) l 0 []"
  have "?c = take (length ?c) (snd st)" by (rule chunk_loop_prefix) simp
  then have "?c @ drop (length ?c) (snd st) = snd st"
    by (metis append_take_drop_id)
  then show ?thesis by (simp add: split_body_def Let_def)
qed

lemma split_body_parts: "fst (split_body l st) = fst st @ [chunk_loop (snd st) l 0 []]"
  by (simp add: split_body_def Let_def)

lemma split_loop_stop:
  "\<not> (int (length (fst st)) < wrap64 (s - 1) \<and> int (length (snd st)) > l) \<Longrightarrow> split_loop l s st = st"
  by (subst split_loop.simps) auto

lemma split_loop_step:
  "int (length (fst st)) < wrap64 (s - 1) \<Longrightarrow> int (length (snd st)) > l \<Longrightarrow>
   split_loop l s st = split_loop l s (split_body l st)"
  by (subst split_loop.simps) auto

lemma split_loop_concat:
  "concat (fst (split_loop l s st)) @ snd (split_loop l s st) = concat (fst st) @ snd st"
proof (induction l s st rule: split_loop.induct)
  case (1 l s st)
  show ?case
  proof (cases "int (length (fst st)) < wrap64 (s - 1) \<and> int (length (snd st)) > l")
    case True
    then have "split_loop l s st = split_loop l s (split_body l st)"
      by (simp add: split_loop_step)
    then show ?thesis using "1.IH" True split_body_concat [of l st] by simp
  next
    case False
    then show ?thesis by (simp add: split_loop_stop)
  qed
qed

lemma split_loop_extends:
  "\<exists>ps. fst (split_loop l s st) = fst st @ ps"
proof (induction l s st rule: split_loop.induct)
  case (1 l s st)
  show ?case
  proof (cases "int (length (fst st)) < wrap64 (s - 1) \<and> int (length (snd st)) > l")
    case True
    then have "split_loop l s st = split_loop l s (split_body l st)"
      by (simp add: split_loop_step)
    moreover obtain ps where "fst (split_loop l s (split_body l st)) = fst (split_body l st) @ ps"
      using "1.IH" True by blast
    ultimately show ?thesis by (simp add: split_body_parts)
  next
    case False
    then show ?thesis by (simp add: split_loop_stop)
  qed
qed

lemma split_loop_count:
  "int (length (fst (split_loop l s st))) \<le> max (int (length (fst st))) (wrap64 (s - 1))"
proof (induction l s st rule: split_loop.induct)
  case (1 l s st)
  show ?case
  proof (cases "int (length (fst st)) < wrap64 (s - 1) \<and> int (length (snd st)) > l")
    case True
    then have "split_loop l s st = split_loop l s (split_body l st)"
      by (simp add: split_loop_step)
    moreover have "int (length (fst (split_loop l s (split_body l st))))
        \<le> max (int (length (fst (split_body l st)))) (wrap64 (s - 1))"
      using "1.IH" True by blast
    ultimately show ?thesis using True by (simp add: split_body_parts)
  next
    case False
    then show ?thesis by (simp add: split_loop_stop)
  qed
qed

lemma ClipOrSplitMessage_Inr:
  "ClipOrSplitMessage t l m s = Inr res \<longleftrightarrow>
     (\<exists>r. ClipMessage (snd (split_loop l s ([], t))) l m = Inr r
        \<and> res = fst (split_loop l s ([], t)) @ [r])"
  by (auto simp: ClipOrSplitMessage_def split: prod.splits sum.splits)

lemma iterates_split_loop:
  "iterates l s t st \<Longrightarrow> iterates l s t (split_loop l s st)"
proof (induction l s st rule: split_loop.induct)
  case (1 l s st)
  show ?case
  proof (cases "int (length (fst st)) < wrap64 (s - 1) \<and> int (length (snd st)) > l")
    case True
    then have "iterates l s t (split_body l st)" using "1.prems" by (simp add: iterates.step)
    then have "iterates l s t (split_loop l s (split_body l st))" using "1.IH" True by blast
    then show ?thesis using True by (simp add: split_loop_step)
  next
    case False
    then show ?thesis using "1.prems" by (simp add: split_loop_stop)
  qed
qed

lemma iterates_concat: "iterates l s t st \<Longrightarrow> concat (fst st) @ snd st = t"
  by (induction rule: iterates.induct) (simp_all add: split_body_concat)

lemma concat_nth_piece:
  "i < length ps \<Longrightarrow> take (length (ps ! i)) (drop (length (concat (take i ps))) (concat ps @ r)) = ps ! i"
proof -
  assume i: "i < length ps"
  then have "ps = take i ps @ ps ! i # drop (Suc i) ps" by (rule id_take_nth_drop)
  then have "concat ps = concat (take i ps) @ ps ! i @ concat (drop (Suc i) ps)"
    by (metis concat.simps(2) concat_append)
  then show ?thesis by simp
qed

lemma split_body_ex: "split_body 4 ([], ''abcdefghij'') = ([''abcd''], ''efghij'')"
  by code_simp

lemma ClipMessage_long_panics:
  assumes "l < int (length t)" and "is_int64 l" and "go_sized t m"
    and "l < int (length (effective_marker m))"
  shows "ClipMessage t l m = Inl SliceBoundsOutOfRange"
proof (cases "ClipMessage t l m")
  case (Inl e)
  then show ?thesis by (cases e) simp
next
  case (Inr r)
  from ClipMessage_long_Inr [OF Inr assms(1-3)] assms(4) show ?thesis by simp
qed

lemma ClipMessage_long_returns:
  assumes "l < int (length t)" and "is_int64 l" and "int (length (effective_marker m)) \<le> l"
  shows "ClipMessage t l m
    = Inr (clip_back (take (nat (l - int (length (effective_marker m)))) t) @ effective_marker m)"
proof -
  have "is_int64 (l - int (length (effective_marker m)))"
    using assms(2,3) by (simp add: is_int64_def)
  then have "wrap64 (l - int (length (effective_marker m))) = l - int (length (effective_marker m))"
    by (rule wrap64_id)
  then show ?thesis using assms(1,3) by (simp add: ClipMessage_def Let_def slice_to_def)
qed

lemma split_loop_remaining_length: "length (snd (split_loop l s st)) \<le> length (concat (fst st)) + length (snd st)"
proof -
  have "length (concat (fst (split_loop l s st)) @ snd (split_loop l s st)) = length (concat (fst st) @ snd st)"
    by (simp only: split_loop_concat)
  then show ?thesis by simp
qed

lemma clip_back_stop: "t = [] \<or> fst (DecodeLastRuneInString t) \<noteq> RuneError \<Longrightarrow> clip_back t = t"
  by (subst clip_back.simps) auto

lemma clip_back_step:
  "t \<noteq> [] \<Longrightarrow> fst (DecodeLastRuneInString t) = RuneError \<Longrightarrow>
   clip_back t = clip_back (take (length t - 1) t)"
  by (subst clip_back.simps) simp

lemma clip_back_ends_well:
  "clip_back t = [] \<or> fst (DecodeLastRuneInString (clip_back t)) \<noteq> RuneError"
proof (induction t rule: clip_back.induct)
  case (1 tx)
  show ?case
  proof (cases "tx \<noteq> [] \<and> fst (DecodeLastRuneInString tx) = RuneError")
    case True
    then show ?thesis using "1.IH" by (simp add: clip_back_step)
  next
    case False
    then have "clip_back tx = tx" by (intro clip_back_stop) auto
    then show ?thesis using False by auto
  qed
qed

lemma clip_back_skipped:
  "length (clip_back t) < j \<Longrightarrow> j \<le> length t \<Longrightarrow> fst (DecodeLastRuneInString (take j t)) = RuneError"
proof (induction t rule: clip_back.induct)
  case (1 tx)
  show ?case
  proof (cases "tx \<noteq> [] \<and> fst (DecodeLastRuneInString tx) = RuneError")
    case True
    then have eq: "clip_back tx = clip_back (take (length tx - 1) tx)" by (simp add: clip_back_step)
    show ?thesis
    proof (cases "j = length tx")
      case j: True
      then show ?thesis using True by simp
    next
      case j: False
      then have jl: "j \<le> length tx - 1" using "1.prems" by simp
      then have "fst (DecodeLastRuneInString (take j (take (length tx - 1) tx))) = RuneError"
        using "1.IH" True "1.prems" eq by simp
      then show ?thesis using jl by (simp add: min_def)
    qed
  next
    case False
    then have "clip_back tx = tx" by (intro clip_back_stop) auto
    then show ?thesis using "1.prems" by simp
  qed
qed

lemma chunk_loop_stop: "\<not> (w < 4 \<and> w < l) \<Longrightarrow> chunk_loop r l w c = c"
  by (subst chunk_loop.simps) auto

lemma chunk_loop_found:
  "w < 4 \<Longrightarrow> w < l \<Longrightarrow> fst (DecodeLastRuneInString (take (nat (l - w)) r)) \<noteq> RuneError \<Longrightarrow>
   chunk_loop r l w c = take (nat (l - w)) r"
  by (subst chunk_loop.simps) (simp add: Let_def)

lemma chunk_loop_step:
  "w < 4 \<Longrightarrow> w < l \<Longrightarrow> fst (DecodeLastRuneInString (take (nat (l - w)) r)) = RuneError \<Longrightarrow>
   chunk_loop r l w c = chunk_loop r l (w + 1) (take (nat (l - w)) r)"
  by (subst chunk_loop.simps) (simp add: Let_def)

lemma chunk_loop_spec:
  "w < 4 \<Longrightarrow> w < l \<Longrightarrow>
   \<exists>w'. w \<le> w' \<and> w' < 4 \<and> w' < l \<and> chunk_loop r l w c = take (nat (l - w')) r
     \<and> (\<forall>j. w \<le> j \<and> j < w' \<longrightarrow> fst (DecodeLastRuneInString (take (nat (l - j)) r)) = RuneError)
     \<and> (fst (DecodeLastRuneInString (take (nat (l - w')) r)) \<noteq> RuneError \<or> w' = min 3 (l - 1))"
proof (induction r l w c rule: chunk_loop.induct)
  case (1 r l w c)
  let ?c = "take (nat (l - w)) r"
  show ?case
  proof (cases "fst (DecodeLastRuneInString ?c) = RuneError")
    case False
    then have "chunk_loop r l w c = ?c" using "1.prems" by (simp add: chunk_loop_found)
    then show ?thesis using False "1.prems" by (intro exI [of _ w]) auto
  next
    case True
    then have eq: "chunk_loop r l w c = chunk_loop r l (w + 1) ?c"
      using "1.prems" by (simp add: chunk_loop_step)
    show ?thesis
    proof (cases "w + 1 < 4 \<and> w + 1 < l")
      case False
      then have "chunk_loop r l w c = ?c" using eq by (simp add: chunk_loop_stop)
      moreover have "w = min 3 (l - 1)" using False "1.prems" by auto
      ultimately show ?thesis using "1.prems" by (intro exI [of _ w]) auto
    next
      case n: True
      then obtain w' where w': "w + 1 \<le> w'" "w' < 4" "w' < l"
          "chunk_loop r l (w + 1) ?c = take (nat (l - w')) r"
          "\<forall>j. w + 1 \<le> j \<and> j < w' \<longrightarrow> fst (DecodeLastRuneInString (take (nat (l - j)) r)) = RuneError"
          "fst (DecodeLastRuneInString (take (nat (l - w')) r)) \<noteq> RuneError \<or> w' = min 3 (l - 1)"
        using "1.IH" [OF _ refl True] "1.prems" by blast
      have "\<forall>j. w \<le> j \<and> j < w' \<longrightarrow> fst (DecodeLastRuneInString (take (nat (l - j)) r)) = RuneError"
      proof (intro allI impI)
        fix j assume j: "w \<le> j \<and> j < w'"
        show "fst (DecodeLastRuneInString (take (nat (l - j)) r)) = RuneError"
        proof (cases "j = w")
          case True then show ?thesis using \<open>fst (DecodeLastRuneInString ?c) = RuneError\<close> by simp
        next
          case False then show ?thesis using j w'(5) by simp
        qed
      qed
      then show ?thesis using w' eq by (intro exI [of _ w']) auto
    qed
  qed
qed

lemma back_up_clip:
  assumes off: "off \<le> length buf"
  shows "length (clip_back (take off buf)) \<le> off"
    and "clip_back (take off buf) = take (length (clip_back (take off buf))) buf"
    and "length (clip_back (take off buf)) = 0
         \<or> fst (DecodeLastRuneInString (take (length (clip_back (take off buf))) buf)) \<noteq> RuneError"
    and "\<forall>j. length (clip_back (take off buf)) < j \<and> j \<le> off
           \<longrightarrow> fst (DecodeLastRuneInString (take j buf)) = RuneError"
proof -
  let ?b = "take off buf"
  let ?k = "length (clip_back ?b)"
  show k: "?k \<le> off" using clip_back_length [of ?b] off by simp
  show p: "clip_back ?b = take ?k buf"
    using clip_back_prefix [of ?b] k by (simp add: min_def)
  show "?k = 0 \<or> fst (DecodeLastRuneInString (take ?k buf)) \<noteq> RuneError"
    using clip_back_ends_well [of ?b] p by auto
  show "\<forall>j. ?k < j \<and> j \<le> off \<longrightarrow> fst (DecodeLastRuneInString (take j buf)) = RuneError"
  proof (intro allI impI)
    fix j assume j: "?k < j \<and> j \<le> off"
    then have "fst (DecodeLastRuneInString (take j ?b)) = RuneError"
      using clip_back_skipped [of ?b j] off by simp
    then show "fst (DecodeLastRuneInString (take j buf)) = RuneError"
      using j by (simp add: min_def)
  qed
qed

lemma euro_clip: "clip_back (take 3 euro_text) = ''a''"
  by code_simp

lemma euro_chunk: "chunk_loop euro_text 3 0 [] = ''a''"
  by code_simp

lemma adjacent_newlines_iff:
  "adjacent_newlines s \<longleftrightarrow> (\<exists>u v. s = u @ [newline, newline] @ v)"
proof (induction s rule: adjacent_newlines.induct)
  case (1 a b r)
  show ?case
  proof
    assume "adjacent_newlines (a # b # r)"
    then consider "a = newline \<and> b = newline" | "adjacent_newlines (b # r)" by auto
    then show "\<exists>u v. a # b # r = u @ [newline, newline] @ v"
    proof cases
      case 1
      then have "a # b # r = [] @ [newline, newline] @ r" by simp
      then show ?thesis by blast
    next
      case 2
      then obtain u v where "b # r = u @ [newline, newline] @ v" using "1.IH" by blast
      then have "a # b # r = (a # u) @ [newline, newline] @ v" by simp
      then show ?thesis by blast
    qed
  next
    assume "\<exists>u v. a # b # r = u @ [newline, newline] @ v"
    then obtain u v where uv: "a # b # r = u @ [newline, newline] @ v" by blast
    show "adjacent_newlines (a # b # r)"
    proof (cases u)
      case Nil
      then show ?thesis using uv by simp
    next
      case (Cons x u')
      then have "b # r = u' @ [newline, newline] @ v" using uv by simp
      then have "adjacent_newlines (b # r)" using "1.IH" by blast
      then show ?thesis by simp
    qed
  qed
qed (auto simp: append_eq_Cons_conv)

lemma ReplaceAllString_Nil_iff: "ReplaceAllString s = [] \<longleftrightarrow> s = []"
  by (cases s) auto

lemma ReplaceAllString_hd: "s \<noteq> [] \<Longrightarrow> hd (ReplaceAllString s) = hd s"
  by (cases s) auto

lemma last_dropWhile: "dropWhile P xs \<noteq> [] \<Longrightarrow> last (dropWhile P xs) = last xs"
  by (induction xs) auto

lemma dropWhile_last_nonempty: "xs \<noteq> [] \<Longrightarrow> \<not> P (last xs) \<Longrightarrow> dropWhile P xs \<noteq> []"
  by (induction xs) (auto split: if_splits)

lemma ReplaceAllString_last:
  "s \<noteq> [] \<Longrightarrow> last s \<noteq> newline \<Longrightarrow> last (ReplaceAllString s) \<noteq> newline"
proof (induction s rule: ReplaceAllString.induct)
  case 1
  then show ?case by simp
next
  case (2 c cs)
  show ?case
  proof (cases "c = newline")
    case True
    let ?d = "dropWhile (\<lambda>x. x = newline) cs"
    have cs: "cs \<noteq> []" "last cs \<noteq> newline" using "2.prems" True by (auto split: if_splits)
    then have d: "?d \<noteq> []" by (intro dropWhile_last_nonempty) auto
    then have "last ?d \<noteq> newline" using cs by (simp add: last_dropWhile)
    then have "last (ReplaceAllString ?d) \<noteq> newline" using "2.IH"(1) True d by blast
    then show ?thesis using True d by (simp add: ReplaceAllString_Nil_iff)
  next
    case False
    show ?thesis
    proof (cases "cs = []")
      case True
      then show ?thesis using False by simp
    next
      case ne: False
      then have "last cs \<noteq> newline" using "2.prems" by simp
      then have "last (ReplaceAllString cs) \<noteq> newline" using "2.IH"(2) False ne by blast
      then show ?thesis using False ne by (simp add: ReplaceAllString_Nil_iff)
    qed
  qed
qed

lemma adjacent_newlines_Cons:
  "adjacent_newlines (a # s) \<longleftrightarrow> (a = newline \<and> s \<noteq> [] \<and> hd s = newline) \<or> adjacent_newlines s"
  by (cases s) auto

lemma ReplaceAllString_no_adjacent: "\<not> adjacent_newlines (ReplaceAllString s)"
proof (induction s rule: ReplaceAllString.induct)
  case 1
  then show ?case by simp
next
  case (2 c cs)
  show ?case
  proof (cases "c = newline")
    case True
    let ?d = "dropWhile (\<lambda>x. x = newline) cs"
    have "ReplaceAllString ?d = [] \<or> hd (ReplaceAllString ?d) \<noteq> newline"
    proof (cases "?d = []")
      case True
      then show ?thesis by (simp only: ReplaceAllString.simps(1) simp_thms)
    next
      case False
      then have "hd ?d \<noteq> newline" by (rule hd_dropWhile)
      moreover have "hd (ReplaceAllString ?d) = hd ?d" using False by (rule ReplaceAllString_hd)
      ultimately show ?thesis by (simp only:) blast
    qed
    then show ?thesis using "2.IH"(1) True by (auto simp: adjacent_newlines_Cons)
  next
    case False
    then show ?thesis using "2.IH"(2) by (simp add: adjacent_newlines_Cons)
  qed
qed

lemma ReplaceAllString_fixed: "\<not> adjacent_newlines s \<Longrightarrow> ReplaceAllString s = s"
proof (induction s rule: ReplaceAllString.induct)
  case 1
  then show ?case by simp
next
  case (2 c cs)
  show ?case
  proof (cases "c = newline")
    case True
    have h: "cs = [] \<or> hd cs \<noteq> newline" and n: "\<not> adjacent_newlines cs"
      using "2.prems" True by (auto simp: adjacent_newlines_Cons)
    then have d: "dropWhile (\<lambda>x. x = newline) cs = cs" by (cases cs) auto
    then show ?thesis using "2.IH"(1) True n by simp
  next
    case False
    then show ?thesis using "2.IH"(2) "2.prems" by (simp add: adjacent_newlines_Cons)
  qed
qed

lemma trimRightByte_stop: "s = [] \<or> last s \<noteq> c \<Longrightarrow> trimRightByte s c = s"
  by (subst trimRightByte.simps) (auto simp: last_conv_nth)

lemma trimRightByte_result: "trimRightByte s c = [] \<or> last (trimRightByte s c) \<noteq> c"
proof (induction s c rule: trimRightByte.induct)
  case (1 s c)
  show ?case
  proof (cases "length s > 0 \<and> s ! (length s - 1) = c")
    case True
    then have "trimRightByte s c = trimRightByte (take (length s - 1) s) c"
      by (subst trimRightByte.simps) simp
    then show ?thesis using "1.IH" True by simp
  next
    case False
    then have "s = [] \<or> last s \<noteq> c" by (auto simp: last_conv_nth)
    then show ?thesis using trimRightByte_stop by metis
  qed
qed

lemma trimLeftByte_stop: "s = [] \<or> hd s \<noteq> c \<Longrightarrow> trimLeftByte s c = s"
  by (cases s) auto

lemma trimLeftByte_result:
  "trimLeftByte s c = [] \<or> (hd (trimLeftByte s c) \<noteq> c \<and> last (trimLeftByte s c) = last s)"
  by (induction s) auto

lemma Trim_byte_result:
  "Trim_byte s c = [] \<or> (hd (Trim_byte s c) \<noteq> c \<and> last (Trim_byte s c) \<noteq> c)"
proof -
  let ?r = "trimRightByte s c"
  show ?thesis
  proof (cases "trimLeftByte ?r c = []")
    case True
    then show ?thesis by (simp add: Trim_byte_def)
  next
    case False
    then have h: "hd (trimLeftByte ?r c) \<noteq> c" "last (trimLeftByte ?r c) = last ?r"
      using trimLeftByte_result [of ?r c] by auto
    have "?r \<noteq> []" using False by auto
    then have "last ?r \<noteq> c" using trimRightByte_result [of s c] by simp
    then show ?thesis using h by (simp add: Trim_byte_def)
  qed
qed

lemma Trim_byte_fixed: "s = [] \<or> (hd s \<noteq> c \<and> last s \<noteq> c) \<Longrightarrow> Trim_byte s c = s"
  by (auto simp: Trim_byte_def trimRightByte_stop trimLeftByte_stop)

lemma RemoveEmptyNewLines_shape:
  "RemoveEmptyNewLines s = []
   \<or> (hd (RemoveEmptyNewLines s) \<noteq> newline \<and> last (RemoveEmptyNewLines s) \<noteq> newline)"
proof -
  let ?t = "Trim_byte s newline"
  show ?thesis
  proof (cases "?t = []")
    case True
    then show ?thesis by (simp add: RemoveEmptyNewLines_def)
  next
    case False
    then have "hd ?t \<noteq> newline" "last ?t \<noteq> newline" using Trim_byte_result [of s newline] by auto
    then show ?thesis
      using False by (simp add: RemoveEmptyNewLines_def ReplaceAllString_hd ReplaceAllString_last)
  qed
qed

lemma range_from_stop: "\<not> i < length line \<Longrightarrow> range_from line i = []"
  by (subst range_from.simps) simp

lemma range_from_step:
  "i < length line \<Longrightarrow>
   range_from line i = i # range_from line (i + snd (DecodeRuneInString (drop i line)))"
  by (subst range_from.simps) simp

lemma range_from_bound: "j \<in> set (range_from line i) \<Longrightarrow> i \<le> j \<and> j < length line"
proof (induction line i rule: range_from.induct)
  case (1 line i)
  show ?case
  proof (cases "i < length line")
    case True
    then show ?thesis using "1.prems" "1.IH" by (auto simp: range_from_step)
  next
    case False
    then show ?thesis using "1.prems" by (simp add: range_from_stop)
  qed
qed

text \<open>The invariant rule of the range loop: an invariant of the loop body, indexed by the
  position the loop has reached, holds at the end of the line after the loop.\<close>

lemma range_loop_rule:
  assumes "I i st" and "i \<le> length line"
    and "\<And>j st. j \<in> set (range_from line i) \<Longrightarrow> I j st \<Longrightarrow>
           I (j + snd (DecodeRuneInString (drop j line))) (sub_step line M c st j)"
  shows "I (length line) (foldl (sub_step line M c) st (range_from line i))"
  using assms
proof (induction line i arbitrary: st rule: range_from.induct)
  case (1 line i)
  show ?case
  proof (cases "i < length line")
    case False
    then have "i = length line" using "1.prems"(2) by simp
    then show ?thesis using "1.prems"(1) False by (simp add: range_from_stop)
  next
    case True
    let ?w = "snd (DecodeRuneInString (drop i line))"
    have r: "range_from line i = i # range_from line (i + ?w)" using True by (rule range_from_step)
    have w: "?w \<le> length (drop i line)" using DecodeRuneInString_width [of "drop i line"] True by simp
    have a: "I (i + ?w) (sub_step line M c st i)"
      using "1.prems"(3) [of i st] "1.prems"(1) r by simp
    have b: "i + ?w \<le> length line" using w True by simp
    have "I (length line) (foldl (sub_step line M c) (sub_step line M c st i) (range_from line (i + ?w)))"
    proof (rule "1.IH" [OF True a b])
      fix j st'
      assume "j \<in> set (range_from line (i + ?w))" and "I j st'"
      then show "I (j + snd (DecodeRuneInString (drop j line))) (sub_step line M c st' j)"
        using "1.prems"(3) [of j st'] r by simp
    qed
    then show ?thesis using r by simp
  qed
qed

lemma foldl_line_step_zero:
  "foldl (line_step 0 c) acc ls = acc @ filter (\<lambda>l. l \<noteq> []) ls"
  by (induction ls arbitrary: acc) (simp_all add: line_step_def)

text \<open>No empty fragment.\<close>

lemma split_line_nonempty:
  assumes "line \<noteq> []" and "c \<noteq> []" and "[] \<notin> set lines"
  shows "[] \<notin> set (split_line line M c lines)"
proof -
  let ?I = "\<lambda>(j::nat) (st :: string list \<times> nat \<times> nat).
      [] \<notin> set (fst st) \<and> fst (snd st) \<le> snd (snd st) \<and> snd (snd st) \<le> j \<and> snd (snd st) < length line"
  have "?I (length line) (foldl (sub_step line M c) (lines, 0, 0) (range_from line 0))"
  proof (rule range_loop_rule [where I = ?I])
    show "?I 0 (lines, 0, 0)" using assms by simp
    show "0 \<le> length line" by simp
    fix j st
    assume j: "j \<in> set (range_from line 0)" and i: "?I j st"
    have "j < length line" using range_from_bound [OF j] by simp
    then show "?I (j + snd (DecodeRuneInString (drop j line))) (sub_step line M c st j)"
      using i assms(2) by (cases st) (auto simp: sub_step_def)
  qed
  moreover obtain ls s p where e: "foldl (sub_step line M c) (lines, 0, 0) (range_from line 0) = (ls, s, p)"
    by (cases "foldl (sub_step line M c) (lines, 0, 0) (range_from line 0)") auto
  ultimately show ?thesis by (simp add: split_line_def)
qed

lemma line_step_nonempty:
  "c \<noteq> [] \<Longrightarrow> [] \<notin> set lines \<Longrightarrow> [] \<notin> set (line_step M c lines line)"
  using split_line_nonempty [of line c lines M] by (auto simp: line_step_def)

lemma foldl_line_step_nonempty:
  "c \<noteq> [] \<Longrightarrow> [] \<notin> set acc \<Longrightarrow> [] \<notin> set (foldl (line_step M c) acc ls)"
  by (induction ls arbitrary: acc) (simp_all add: line_step_nonempty)

lemma GetSubLines_nonempty: "[] \<notin> set (GetSubLines message M m)"
  unfolding GetSubLines_def Let_def
  by (rule foldl_line_step_nonempty) (simp_all add: effective_marker_nonempty)

lemma ClipMessage_nonempty:
  assumes "ClipMessage t l m = Inr r" and "t \<noteq> []" and "is_int64 l" and "go_sized t m"
  shows "r \<noteq> []"
proof (cases "l < int (length t)")
  case True
  from ClipMessage_long_Inr [OF assms(1) True assms(3,4)]
  show ?thesis by (simp add: effective_marker_nonempty)
next
  case False
  then have "r = t" using assms(1) by (simp add: ClipMessage_def Let_def)
  then show ?thesis using assms(2) by simp
qed

lemma ClipMessage_Inr_budget:
  assumes "ClipMessage t l m = Inr r" and "l < int (length t)" and "is_int64 l" and "go_sized t m"
  shows "0 < l"
  using ClipMessage_long_Inr [OF assms] effective_marker_nonempty [of m]
  by (cases "effective_marker m") auto

lemma split_loop_no_budget: "l \<le> 0 \<Longrightarrow> snd (split_loop l s st) = snd st"
proof (induction l s st rule: split_loop.induct)
  case (1 l s st)
  show ?case
  proof (cases "int (length (fst st)) < wrap64 (s - 1) \<and> int (length (snd st)) > l")
    case True
    have "chunk_loop (snd st) l 0 [] = []" using "1.prems" by (simp add: chunk_loop_stop)
    then have "snd (split_body l st) = snd st" by (simp add: split_body_def)
    then show ?thesis using "1.IH" True "1.prems" by (simp add: split_loop_step)
  next
    case False
    then show ?thesis by (simp add: split_loop_stop)
  qed
qed

lemma split_body_nonempty:
  assumes "0 < l" and "l < int (length (snd st))" and "[] \<notin> set (fst st)"
  shows "[] \<notin> set (fst (split_body l st)) \<and> snd (split_body l st) \<noteq> []"
proof -
  obtain w where w: "0 \<le> w" "w < l" and c: "chunk_loop (snd st) l 0 [] = take (nat (l - w)) (snd st)"
    using chunk_loop_spec [of 0 l "snd st" "[]"] assms(1) by auto
  have "length (chunk_loop (snd st) l 0 []) = nat (l - w)" using c w assms(2) by simp
  then show ?thesis using w assms by (auto simp: split_body_def Let_def)
qed

lemma iterates_nonempty:
  "iterates l s t st \<Longrightarrow> 0 < l \<Longrightarrow> t \<noteq> [] \<Longrightarrow> [] \<notin> set (fst st) \<and> snd st \<noteq> []"
proof (induction rule: iterates.induct)
  case start
  then show ?case by simp
next
  case (step st)
  then show ?case using split_body_nonempty [of l st] by simp
qed

lemma ClipOrSplitMessage_empty_fragment:
  assumes "ClipOrSplitMessage t l m s = Inr res" and "is_int64 l" and "go_sized t m"
  shows "[] \<in> set res \<longleftrightarrow> t = []"
proof -
  let ?st = "split_loop l s ([], t)"
  obtain r where r: "ClipMessage (snd ?st) l m = Inr r" and res: "res = fst ?st @ [r]"
    using assms(1) by (auto simp: ClipOrSplitMessage_Inr)
  have cc: "concat (fst ?st) @ snd ?st = t" using split_loop_concat [of l s "([], t)"] by simp
  then have "length (snd ?st) \<le> length t" by (metis length_append le_add2)
  then have gs: "go_sized (snd ?st) m" using assms(3) by (simp add: go_sized_def)
  have it: "iterates l s t ?st" by (rule iterates_split_loop) (rule iterates.start)
  show ?thesis
  proof (cases "t = []")
    case True
    then have e: "snd ?st = []" and p: "\<forall>x \<in> set (fst ?st). x = []" using cc by auto
    have "\<not> l < 0"
    proof
      assume "l < 0"
      then have "l < int (length (snd ?st))" by simp
      from ClipMessage_Inr_budget [OF r this assms(2) gs] \<open>l < 0\<close> show False by simp
    qed
    then have "r = []" using r e by (simp add: ClipMessage_def Let_def)
    then show ?thesis using True res by simp
  next
    case False
    have "0 < l"
    proof (rule ccontr)
      assume "\<not> 0 < l"
      then have l: "l \<le> 0" by simp
      then have "snd ?st = t" using split_loop_no_budget [of l s "([], t)"] by simp
      then have "l < int (length (snd ?st))" using False l by (cases t) auto
      from ClipMessage_Inr_budget [OF r this assms(2) gs] l show False by simp
    qed
    then have n: "[] \<notin> set (fst ?st)" "snd ?st \<noteq> []"
      using iterates_nonempty [OF it _ False] by simp_all
    have "r \<noteq> []" using ClipMessage_nonempty [OF r n(2) assms(2) gs] .
    then show ?thesis using n res False by auto
  qed
qed

lemma range_from_zero: "line \<noteq> [] \<Longrightarrow> 0 \<in> set (range_from line 0)"
  by (simp add: range_from_step)

lemma foldl_line_step_invariant:
  assumes "\<forall>f\<in>set acc. P f"
    and "\<And>line lines. line \<in> set ls \<Longrightarrow> \<forall>f\<in>set lines. P f \<Longrightarrow>
           \<forall>f\<in>set (line_step M c lines line). P f"
  shows "\<forall>f\<in>set (foldl (line_step M c) acc ls). P f"
  using assms
proof (induction ls arbitrary: acc)
  case Nil
  then show ?case by simp
next
  case (Cons x xs)
  have "\<forall>f\<in>set (line_step M c acc x). P f"
    using Cons.prems(1) by (intro Cons.prems(2)) simp_all
  moreover have "\<And>line lines. line \<in> set xs \<Longrightarrow> \<forall>f\<in>set lines. P f \<Longrightarrow>
           \<forall>f\<in>set (line_step M c lines line). P f"
    using Cons.prems(2) by (meson list.set_intros(2))
  ultimately have "\<forall>f\<in>set (foldl (line_step M c) (line_step M c acc x) xs). P f"
    by (rule Cons.IH)
  then show ?case by simp
qed

lemma split_line_cut_at_runes:
  assumes "line \<noteq> []" and "\<forall>f\<in>set lines. P f"
    and "\<And>f. cut_at_runes line c f \<Longrightarrow> P f"
  shows "\<forall>f\<in>set (split_line line M c lines). P f"
proof -
  let ?S = "set (range_from line 0)"
  let ?I = "\<lambda>(j::nat) (st :: string list \<times> nat \<times> nat).
      (\<forall>f\<in>set (fst st). P f) \<and> fst (snd st) \<in> ?S \<and> snd (snd st) \<in> ?S
      \<and> fst (snd st) \<le> snd (snd st) \<and> snd (snd st) \<le> j"
  have "?I (length line) (foldl (sub_step line M c) (lines, 0, 0) (range_from line 0))"
  proof (rule range_loop_rule [where I = ?I])
    show "?I 0 (lines, 0, 0)" using assms(1,2) by (simp add: range_from_zero)
    show "0 \<le> length line" by simp
    fix j st
    assume j: "j \<in> ?S" and i: "?I j st"
    obtain ls s p where st: "st = (ls, s, p)" by (cases st) auto
    have "P (take (p - s) (drop s line) @ c)"
      using i st by (intro assms(3)) (auto simp: cut_at_runes_def)
    then show "?I (j + snd (DecodeRuneInString (drop j line))) (sub_step line M c st j)"
      using i j st range_from_bound [of s line 0] range_from_bound [of p line 0]
      by (auto simp: sub_step_def)
  qed
  moreover obtain ls s p where e: "foldl (sub_step line M c) (lines, 0, 0) (range_from line 0) = (ls, s, p)"
    by (cases "foldl (sub_step line M c) (lines, 0, 0) (range_from line 0)") auto
  moreover have "s \<in> ?S \<Longrightarrow> P (drop s line)"
    by (intro assms(3)) (auto simp: cut_at_runes_def)
  ultimately show ?thesis by (simp add: split_line_def)
qed

lemma rune_widths_le_4: "x \<in> set (rune_widths line) \<Longrightarrow> x \<le> 4"
proof -
  assume "x \<in> set (rune_widths line)"
  then obtain i where i: "i \<in> set (range_from line 0)" and x: "x = snd (DecodeRuneInString (drop i line))"
    by (auto simp: rune_widths_def)
  have "drop i line \<noteq> []" using range_from_bound [OF i] by simp
  then show ?thesis using DecodeRuneInString_width [of "drop i line"] x by simp
qed

lemma split_line_length:
  assumes "\<forall>f\<in>set lines. int (length f) \<le> M"
    and w: "\<forall>x\<in>set (rune_widths line). x \<le> W"
    and wc: "W \<le> length c" and cm: "int (length c) + int W \<le> M" and m: "is_int64 M"
  shows "\<forall>f\<in>set (split_line line M c lines). int (length f) \<le> M"
proof -
  let ?d = "M - int (length c)"
  have "is_int64 ?d" using m cm by (simp add: is_int64_def)
  then have d: "wrap64 ?d = ?d" by (rule wrap64_id)
  let ?I = "\<lambda>(j::nat) (st :: string list \<times> nat \<times> nat).
      (\<forall>f\<in>set (fst st). int (length f) \<le> M) \<and> fst (snd st) \<le> snd (snd st) \<and> snd (snd st) \<le> j
      \<and> j - snd (snd st) \<le> W \<and> int (snd (snd st)) - int (fst (snd st)) \<le> ?d"
  have "?I (length line) (foldl (sub_step line M c) (lines, 0, 0) (range_from line 0))"
  proof (rule range_loop_rule [where I = ?I])
    show "?I 0 (lines, 0, 0)" using assms(1) cm by simp
    show "0 \<le> length line" by simp
    fix j st
    assume j: "j \<in> set (range_from line 0)" and i: "?I j st"
    obtain ls s p where st: "st = (ls, s, p)" by (cases st) auto
    have "snd (DecodeRuneInString (drop j line)) \<in> set (rune_widths line)"
      using j by (simp add: rune_widths_def)
    then have wj: "snd (DecodeRuneInString (drop j line)) \<le> W" using w by blast
    show "?I (j + snd (DecodeRuneInString (drop j line))) (sub_step line M c st j)"
    proof (cases "int j - int s > ?d")
      case True
      then have e: "sub_step line M c st j = (ls @ [take (p - s) (drop s line) @ c], p, j)"
        using st d by (simp add: sub_step_def)
      have sp: "s \<le> p" using i st by simp
      have "int (length (take (p - s) (drop s line))) \<le> int (p - s)" by simp
      also have "\<dots> = int p - int s" using sp by simp
      finally have "int (length (take (p - s) (drop s line) @ c)) \<le> int p - int s + int (length c)"
        by simp
      also have "\<dots> \<le> M" using i st by simp
      finally show ?thesis using e i st wj cm by auto
    next
      case False
      then have "sub_step line M c st j = (ls, s, j)" using st d by (simp add: sub_step_def)
      then show ?thesis using i st wj False by auto
    qed
  qed
  moreover obtain ls s p where e: "foldl (sub_step line M c) (lines, 0, 0) (range_from line 0) = (ls, s, p)"
    by (cases "foldl (sub_step line M c) (lines, 0, 0) (range_from line 0)") auto
  ultimately have f: "\<forall>f\<in>set ls. int (length f) \<le> M" "s \<le> p" "p \<le> length line"
      "length line - p \<le> W" "int p - int s \<le> ?d"
    by simp_all
  have "int (length (drop s line)) = (int (length line) - int p) + (int p - int s)" using f by simp
  also have "\<dots> \<le> int W + ?d" using f by linarith
  also have "\<dots> \<le> M" using wc by simp
  finally show ?thesis using f(1) e by (simp add: split_line_def)
qed

lemma GetSubLines_length:
  assumes "is_int64 M" and "0 < M"
    and "\<forall>line\<in>set (Split (TrimSpace message)). \<forall>x\<in>set (rune_widths line). x \<le> W"
    and "W \<le> length (effective_marker m)" and "int (length (effective_marker m)) + int W \<le> M"
  shows "\<forall>f\<in>set (GetSubLines message M m). int (length f) \<le> M"
  unfolding GetSubLines_def Let_def
proof (rule foldl_line_step_invariant)
  show "\<forall>f\<in>set []. int (length f) \<le> M" by simp
  fix line :: string and lines :: "string list"
  assume l: "line \<in> set (Split (TrimSpace message))" and i: "\<forall>f\<in>set lines. int (length f) \<le> M"
  have "\<forall>x\<in>set (rune_widths line). x \<le> W" using assms(3) l by blast
  then have "\<forall>f\<in>set (split_line line M (effective_marker m) lines). int (length f) \<le> M"
    using i assms by (intro split_line_length) simp_all
  then show "\<forall>f\<in>set (line_step M (effective_marker m) lines line). int (length f) \<le> M"
    using i assms(2) by (auto simp: line_step_def)
qed

lemma GetSubLines_cut_at_runes:
  "\<forall>f\<in>set (GetSubLines message M m).
     \<exists>line\<in>set (Split (TrimSpace message)). line \<noteq> [] \<and> cut_at_runes line (effective_marker m) f"
  unfolding GetSubLines_def Let_def
proof (rule foldl_line_step_invariant)
  let ?P = "\<lambda>f. \<exists>line\<in>set (Split (TrimSpace message)). line \<noteq> [] \<and> cut_at_runes line (effective_marker m) f"
  show "\<forall>f\<in>set []. ?P f" by simp
  fix line :: string and lines :: "string list"
  assume l: "line \<in> set (Split (TrimSpace message))" and i: "\<forall>f\<in>set lines. ?P f"
  show "\<forall>f\<in>set (line_step M (effective_marker m) lines line). ?P f"
  proof (cases "line = []")
    case True
    then show ?thesis using i by (simp add: line_step_def)
  next
    case False
    have "\<forall>f\<in>set (split_line line M (effective_marker m) lines). ?P f"
      using False i l by (intro split_line_cut_at_runes) auto
    moreover have "?P line" using l False by (auto simp: cut_at_runes_def)
    ultimately show ?thesis using i by (auto simp: line_step_def)
  qed
qed

lemma chunk_loop_length:
  assumes "0 \<le> l"
  shows "int (length (chunk_loop r l 0 [])) \<le> l"
proof (cases "0 < l")
  case True
  then obtain w where w: "0 \<le> w" and c: "chunk_loop r l 0 [] = take (nat (l - w)) r"
    using chunk_loop_spec [of 0 l r "[]"] by auto
  have "length (take (nat (l - w)) r) \<le> nat (l - w)" by simp
  then have "int (length (take (nat (l - w)) r)) \<le> int (nat (l - w))"
    by (rule iffD2 [OF of_nat_le_iff])
  also have "\<dots> \<le> l" using True w by simp
  finally show ?thesis by (simp only: c)
next
  case False
  then show ?thesis using assms by (simp add: chunk_loop_stop)
qed

lemma iterates_length:
  "iterates l s t st \<Longrightarrow> 0 \<le> l \<Longrightarrow> \<forall>f\<in>set (fst st). int (length f) \<le> l"
proof (induction rule: iterates.induct)
  case start
  then show ?case by simp
next
  case (step st)
  then show ?case using chunk_loop_length [of l "snd st"] by (auto simp: split_body_def Let_def)
qed

lemma ClipOrSplitMessage_length:
  assumes "ClipOrSplitMessage t l m s = Inr res" and "is_int64 l" and "0 \<le> l" and "go_sized t m"
  shows "\<forall>f\<in>set res. int (length f) \<le> l"
proof -
  let ?st = "split_loop l s ([], t)"
  obtain r where r: "ClipMessage (snd ?st) l m = Inr r" and res: "res = fst ?st @ [r]"
    using assms(1) by (auto simp: ClipOrSplitMessage_Inr)
  have "concat (fst ?st) @ snd ?st = t" using split_loop_concat [of l s "([], t)"] by simp
  then have "length (snd ?st) \<le> length t" by (metis length_append le_add2)
  then have gs: "go_sized (snd ?st) m" using assms(4) by (simp add: go_sized_def)
  have "iterates l s t ?st" by (rule iterates_split_loop) (rule iterates.start)
  then have p: "\<forall>f\<in>set (fst ?st). int (length f) \<le> l" using assms(3) by (rule iterates_length)
  have "int (length r) \<le> l"
  proof (cases "l < int (length (snd ?st))")
    case True
    then show ?thesis using ClipMessage_length(2) [OF r assms(2) gs] by simp
  next
    case False
    then have "r = snd ?st" using r by (simp add: ClipMessage_def Let_def)
    then show ?thesis using False by simp
  qed
  then show ?thesis using p res by simp
qed

lemma abcdef_lines: "Split (TrimSpace ''abcdef'') = [''abcdef'']"
  by code_simp

lemma abcdef_widths: "rune_widths ''abcdef'' = [1, 1, 1, 1, 1, 1]"
  by code_simp

lemma abcdef_sub_lines: "GetSubLines ''abcdef'' 3 ''_'' = [''ab_'', ''cd_'', ''ef'']"
  by code_simp

section \<open>Texts that are valid UTF-8\<close>

lemma byte_range: "0 \<le> byte c \<and> byte c < 256"
proof -
  have "byte c = int (of_char c)" by (simp only: byte_def of_nat_of_char)
  moreover have "(of_char c :: nat) < 256" by (rule nat_of_char_less_256)
  ultimately show ?thesis by simp
qed

lemma RuneStart_iff: "RuneStart c \<longleftrightarrow> \<not> continuation c"
proof -
  have "\<forall>c::char. RuneStart c \<longleftrightarrow> \<not> continuation c" by code_simp
  then show ?thesis by blast
qed

lemma first_lead: "first c < 0xF0 \<Longrightarrow> 0xC2 \<le> byte c"
  by (simp add: first_def Let_def split: if_splits)

lemma first_single: "first c \<ge> 0xF0 \<Longrightarrow> first c \<noteq> 0xF1 \<Longrightarrow> byte c < 0x80"
  by (simp add: first_def Let_def split: if_splits)

lemma acceptRanges_continuation:
  "fst (acceptRanges i) \<le> byte c \<Longrightarrow> byte c \<le> snd (acceptRanges i) \<Longrightarrow> continuation c"
  by (simp add: acceptRanges_def continuation_def split: if_splits)

text \<open>The shape of a rune that decodes without error: one ASCII byte, or a lead byte and
  continuation bytes, as many as the lead byte announces.\<close>

lemma DecodeRuneInString_shape:
  assumes "s \<noteq> []" and "fst (DecodeRuneInString s) \<noteq> RuneError"
  shows "(snd (DecodeRuneInString s) = 1 \<and> byte (s ! 0) < 0x80 \<and> first (s ! 0) \<ge> 0xF0)
     \<or> (first (s ! 0) < 0xF0 \<and> snd (DecodeRuneInString s) = nat (first (s ! 0) AND 7)
         \<and> 2 \<le> snd (DecodeRuneInString s) \<and> snd (DecodeRuneInString s) \<le> length s
         \<and> continuation (s ! 1)
         \<and> (3 \<le> snd (DecodeRuneInString s) \<longrightarrow> continuation (s ! 2))
         \<and> (4 \<le> snd (DecodeRuneInString s) \<longrightarrow> continuation (s ! 3)))"
proof (cases "first (s ! 0) \<ge> 0xF0")
  case True
  then have d: "DecodeRuneInString s = (if first (s ! 0) = 0xF1 then RuneError else byte (s ! 0), 1)"
    using assms(1) by (simp add: DecodeRuneInString_def Let_def)
  then have "first (s ! 0) \<noteq> 0xF1" using assms(2) by auto
  then have "byte (s ! 0) < 0x80" using True by (rule first_single [rotated])
  then show ?thesis using d True by simp
next
  case False
  then have f: "first (s ! 0) < 0xF0" by simp
  let ?sz = "nat (first (s ! 0) AND 7)"
  have sz: "?sz \<in> {2, 3, 4}" using f by (rule first_size)
  let ?acc = "acceptRanges (drop_bit 4 (first (s ! 0)))"
  have n: "\<not> length s < ?sz"
    using assms f by (auto simp: DecodeRuneInString_def Let_def)
  have a1: "\<not> (byte (s ! 1) < fst ?acc \<or> snd ?acc < byte (s ! 1))"
    using assms f n by (auto simp: DecodeRuneInString_def Let_def)
  then have c1: "continuation (s ! 1)"
    by (intro acceptRanges_continuation [of "drop_bit 4 (first (s ! 0))"]) simp_all
  have c2: "3 \<le> ?sz \<Longrightarrow> continuation (s ! 2)"
    using assms f n a1 by (auto simp: DecodeRuneInString_def Let_def continuation_def split: if_splits)
  have c3: "4 \<le> ?sz \<Longrightarrow> continuation (s ! 3)"
    using assms f n a1 by (auto simp: DecodeRuneInString_def Let_def continuation_def split: if_splits)
  have w: "snd (DecodeRuneInString s) = ?sz"
    using assms f n a1 sz by (auto simp: DecodeRuneInString_def Let_def split: if_splits)
  show ?thesis using f n c1 c2 c3 w sz by auto
qed

lemma DecodeRuneInString_single:
  assumes "s \<noteq> []" and "fst (DecodeRuneInString s) \<noteq> RuneError" and "snd (DecodeRuneInString s) = 1"
  shows "byte (s ! 0) < 0x80" and "DecodeRuneInString s = (byte (s ! 0), 1)"
proof -
  from DecodeRuneInString_shape [OF assms(1,2)] assms(3)
  have a: "byte (s ! 0) < 0x80" "first (s ! 0) \<ge> 0xF0" by auto
  then show "byte (s ! 0) < 0x80" by simp
  have "first (s ! 0) \<noteq> 0xF1"
    using a(1) by (simp add: first_def Let_def)
  then show "DecodeRuneInString s = (byte (s ! 0), 1)"
    using a(2) assms(1) by (simp add: DecodeRuneInString_def Let_def)
qed

lemma DecodeRuneInString_multi:
  assumes "s \<noteq> []" and "fst (DecodeRuneInString s) \<noteq> RuneError" and "2 \<le> snd (DecodeRuneInString s)"
  shows "0xC2 \<le> byte (s ! 0)" and "first (s ! 0) < 0xF0"
    and "snd (DecodeRuneInString s) = nat (first (s ! 0) AND 7)"
    and "snd (DecodeRuneInString s) \<le> length s"
    and "\<forall>i. 1 \<le> i \<and> i < snd (DecodeRuneInString s) \<longrightarrow> continuation (s ! i)"
proof -
  let ?w = "snd (DecodeRuneInString s)"
  from DecodeRuneInString_shape [OF assms(1,2)] assms(3)
  have a: "first (s ! 0) < 0xF0" "?w = nat (first (s ! 0) AND 7)" "?w \<le> length s"
    "continuation (s ! 1)" "3 \<le> ?w \<longrightarrow> continuation (s ! 2)" "4 \<le> ?w \<longrightarrow> continuation (s ! 3)"
    by auto
  show "first (s ! 0) < 0xF0" "?w = nat (first (s ! 0) AND 7)" "?w \<le> length s" using a by simp_all
  show "0xC2 \<le> byte (s ! 0)" using a(1) by (rule first_lead)
  have w4: "?w \<le> 4" using DecodeRuneInString_width [OF assms(1)] by simp
  show "\<forall>i. 1 \<le> i \<and> i < ?w \<longrightarrow> continuation (s ! i)"
  proof (intro allI impI)
    fix i assume "1 \<le> i \<and> i < ?w"
    then have "i = 1 \<or> (i = 2 \<and> 3 \<le> ?w) \<or> (i = 3 \<and> 4 \<le> ?w)" using w4 by arith
    then show "continuation (s ! i)" using a by auto
  qed
qed

lemma DecodeRuneInString_truncated:
  "s \<noteq> [] \<Longrightarrow> first (s ! 0) < 0xF0 \<Longrightarrow> length s < nat (first (s ! 0) AND 7) \<Longrightarrow>
   DecodeRuneInString s = (RuneError, 1)"
  by (simp add: DecodeRuneInString_def Let_def)

text \<open>Decoding reads only the bytes of the rune.\<close>

lemma DecodeRuneInString_take:
  assumes "s \<noteq> []" and "fst (DecodeRuneInString s) \<noteq> RuneError"
  shows "DecodeRuneInString (take (snd (DecodeRuneInString s)) s) = DecodeRuneInString s"
proof -
  let ?w = "snd (DecodeRuneInString s)"
  have w: "1 \<le> ?w" "?w \<le> length s" using DecodeRuneInString_width [OF assms(1)] by simp_all
  show ?thesis
  proof (cases "?w = 1")
    case True
    have e: "DecodeRuneInString s = (byte (s ! 0), 1)" "byte (s ! 0) < 0x80"
      using DecodeRuneInString_single [OF assms True] by simp_all
    have "first (s ! 0) = 0xF0" using e(2) by (simp add: first_def Let_def)
    then have "DecodeRuneInString (take 1 s) = (byte (s ! 0), 1)"
      using assms(1) by (simp add: DecodeRuneInString_def Let_def)
    then show ?thesis using e True by simp
  next
    case False
    then have w2: "2 \<le> ?w" using w by simp
    note m = DecodeRuneInString_multi [OF assms w2]
    have sz: "nat (first (s ! 0) AND 7) \<in> {2, 3, 4}" using m(2) by (rule first_size)
    have n: "\<forall>i<?w. take ?w s ! i = s ! i" by simp
    have l: "length (take ?w s) = ?w" using w by simp
    have z: "take ?w s ! 0 = s ! 0" using w by simp
    show ?thesis
    proof -
      consider "?w = 2" | "?w = 3" | "?w = 4" using sz m(3) by auto
      then show ?thesis
      proof cases
        case 1
        then have "take 2 s ! 0 = s ! 0" "take 2 s ! 1 = s ! 1" "length (take 2 s) = 2" "2 \<le> length s"
          using w by simp_all
        then show ?thesis using 1 m(3) assms(1)
          by (simp add: DecodeRuneInString_def [of s] DecodeRuneInString_def [of "take 2 s"] Let_def)
      next
        case 2
        then have "take 3 s ! 0 = s ! 0" "take 3 s ! 1 = s ! 1" "take 3 s ! 2 = s ! 2"
          "length (take 3 s) = 3" "3 \<le> length s"
          using w by simp_all
        then show ?thesis using 2 m(3) assms(1)
          by (simp add: DecodeRuneInString_def [of s] DecodeRuneInString_def [of "take 3 s"] Let_def)
      next
        case 3
        then have "take 4 s ! 0 = s ! 0" "take 4 s ! 1 = s ! 1" "take 4 s ! 2 = s ! 2"
          "take 4 s ! 3 = s ! 3" "length (take 4 s) = 4" "4 \<le> length s"
          using w by simp_all
        then show ?thesis using 3 m(3) assms(1)
          by (simp add: DecodeRuneInString_def [of s] DecodeRuneInString_def [of "take 4 s"] Let_def)
      qed
    qed
  qed
qed

lemma scan_back_le: "scan_back s lim start \<le> start"
proof (induction s lim start rule: scan_back.induct)
  case (1 s lim start)
  show ?case
  proof (cases "start \<ge> lim \<and> \<not> RuneStart (s ! nat start)")
    case True
    then have "scan_back s lim start = scan_back s lim (start - 1)"
      by (subst scan_back.simps) simp
    then show ?thesis using "1.IH" True by simp
  next
    case False
    then have "scan_back s lim start = start" by (subst scan_back.simps) auto
    then show ?thesis by simp
  qed
qed

lemma scan_back_finds:
  "lim \<le> p \<Longrightarrow> p \<le> start \<Longrightarrow> RuneStart (s ! nat p) \<Longrightarrow>
   \<forall>i. p < i \<and> i \<le> start \<longrightarrow> \<not> RuneStart (s ! nat i) \<Longrightarrow> scan_back s lim start = p"
proof (induction s lim start rule: scan_back.induct)
  case (1 s lim start)
  show ?case
  proof (cases "start = p")
    case True
    then show ?thesis using "1.prems" by (subst scan_back.simps) simp
  next
    case False
    then have lt: "p < start" using "1.prems" by simp
    then have n: "\<not> RuneStart (s ! nat start)" using "1.prems" by simp
    have "scan_back s lim start = scan_back s lim (start - 1)"
      using lt n "1.prems"(1) by (subst scan_back.simps) simp
    moreover have "scan_back s lim (start - 1) = p"
      using lt n "1.prems" by (intro "1.IH") auto
    ultimately show ?thesis by simp
  qed
qed

lemma nat_int_pred: "nat (int n - 1) = n - 1"
  by arith

lemma DecodeLastRuneInString_ascii:
  "s \<noteq> [] \<Longrightarrow> byte (last s) < 0x80 \<Longrightarrow> DecodeLastRuneInString s = (byte (last s), 1)"
  by (simp add: DecodeLastRuneInString_def Let_def RuneSelf_def last_conv_nth nat_int_pred)

lemma DecodeLastRuneInString_scan:
  assumes "s \<noteq> []" and "\<not> byte (last s) < 0x80"
  shows "DecodeLastRuneInString s =
     (let start = max 0 (scan_back s (max 0 (int (length s) - 4)) (int (length s) - 2));
          d = DecodeRuneInString (drop (nat start) s)
      in if start + int (snd d) \<noteq> int (length s) then (RuneError, 1) else d)"
  using assms
  by (simp add: DecodeLastRuneInString_def Let_def RuneSelf_def UTFMax_def max_def
      case_prod_unfold last_conv_nth nat_int_pred)

lemma continuation_not_lead: "continuation c \<Longrightarrow> \<not> 0xC2 \<le> byte c"
  by (simp add: continuation_def)

lemma continuation_high: "continuation c \<Longrightarrow> \<not> byte c < 0x80"
  by (simp add: continuation_def)

text \<open>The last rune of the text up to the end of a rune is that rune.\<close>

lemma DecodeLast_at_boundary:
  assumes k0: "k0 < length s" and d: "DecodeRuneInString (drop k0 s) = (r, w)"
    and r: "r \<noteq> RuneError"
  shows "DecodeLastRuneInString (take (k0 + w) s) = (r, w)"
proof -
  let ?u = "drop k0 s"
  let ?t = "take (k0 + w) s"
  have u: "?u \<noteq> []" using k0 by simp
  have w: "1 \<le> w" "w \<le> 4" "w \<le> length ?u" using DecodeRuneInString_width [OF u] d by simp_all
  then have k: "k0 + w \<le> length s" by simp
  have lt: "length ?t = k0 + w" using k by simp
  have t: "?t \<noteq> []" using w lt by (metis add_is_0 length_0_conv not_one_le_zero)
  have nth: "\<And>i. i < k0 + w \<Longrightarrow> ?t ! i = s ! i" by simp
  have last_t: "last ?t = s ! (k0 + w - 1)"
    using t lt nth [of "k0 + w - 1"] w by (simp add: last_conv_nth)
  have f: "fst (DecodeRuneInString ?u) \<noteq> RuneError" using d r by simp
  show ?thesis
  proof (cases "w = 1")
    case True
    then have "snd (DecodeRuneInString ?u) = 1" using d by simp
    from DecodeRuneInString_single [OF u f this]
    have "byte (?u ! 0) < 0x80" "DecodeRuneInString ?u = (byte (?u ! 0), 1)" by simp_all
    moreover have "?u ! 0 = last ?t" using last_t True k0 by simp
    ultimately show ?thesis using DecodeLastRuneInString_ascii [OF t] d True by simp
  next
    case False
    then have w2: "2 \<le> snd (DecodeRuneInString ?u)" using w d by simp
    note m = DecodeRuneInString_multi [OF u f w2]
    have lead: "0xC2 \<le> byte (s ! k0)" using m(1) k0 by simp
    have cont: "\<And>i. k0 < i \<Longrightarrow> i < k0 + w \<Longrightarrow> continuation (s ! i)"
    proof -
      fix i assume i: "k0 < i" "i < k0 + w"
      then have "1 \<le> i - k0 \<and> i - k0 < w" by arith
      then have "1 \<le> i - k0 \<and> i - k0 < snd (DecodeRuneInString ?u)" using d by simp
      then have "continuation (?u ! (i - k0))" using m(5) by blast
      then show "continuation (s ! i)" using i k by simp
    qed
    have "continuation (last ?t)" using last_t cont [of "k0 + w - 1"] w2 d by simp
    then have hi: "\<not> byte (last ?t) < 0x80" by (rule continuation_high)
    have sc: "scan_back ?t (max 0 (int (length ?t) - 4)) (int (length ?t) - 2) = int k0"
    proof (rule scan_back_finds)
      show "max 0 (int (length ?t) - 4) \<le> int k0" using lt w by simp
      show "int k0 \<le> int (length ?t) - 2" using lt w2 d by simp
      have "\<not> continuation (s ! k0)" using lead continuation_not_lead by blast
      then show "RuneStart (?t ! nat (int k0))" using nth [of k0] w by (simp add: RuneStart_iff)
      show "\<forall>i. int k0 < i \<and> i \<le> int (length ?t) - 2 \<longrightarrow> \<not> RuneStart (?t ! nat i)"
      proof (intro allI impI)
        fix i assume i: "int k0 < i \<and> i \<le> int (length ?t) - 2"
        then have "k0 < nat i" "nat i < k0 + w" using lt by auto
        then have "continuation (?t ! nat i)" using cont [of "nat i"] nth [of "nat i"] by simp
        then show "\<not> RuneStart (?t ! nat i)" by (simp add: RuneStart_iff)
      qed
    qed
    have "drop k0 ?t = take w ?u" by (simp add: drop_take)
    then have dd: "DecodeRuneInString (drop k0 ?t) = (r, w)"
      using DecodeRuneInString_take [OF u f] d by simp
    show ?thesis
      using DecodeLastRuneInString_scan [OF t hi] sc dd lt by (simp add: Let_def)
  qed
qed

text \<open>The text up to a position inside a rune of several bytes does not end in a rune.\<close>

lemma DecodeLast_inside:
  assumes k: "k < length s" and f: "fst (DecodeRuneInString (drop k s)) \<noteq> RuneError"
    and j: "k < j" "j < k + snd (DecodeRuneInString (drop k s))"
  shows "fst (DecodeLastRuneInString (take j s)) = RuneError"
proof (rule ccontr)
  assume ne: "fst (DecodeLastRuneInString (take j s)) \<noteq> RuneError"
  let ?u = "drop k s"
  let ?w = "snd (DecodeRuneInString ?u)"
  let ?t = "take j s"
  have u: "?u \<noteq> []" using k by simp
  have w2: "2 \<le> ?w" using j by simp
  note m = DecodeRuneInString_multi [OF u f w2]
  have jl: "j \<le> length s" using j m(4) by simp
  have lt: "length ?t = j" using jl by simp
  have t: "?t \<noteq> []" using j lt by (metis length_0_conv not_less_zero)
  have nth: "\<And>i. i < j \<Longrightarrow> ?t ! i = s ! i" by simp
  have lead: "0xC2 \<le> byte (s ! k)" using m(1) k by simp
  have cont: "\<And>i. k < i \<Longrightarrow> i < k + ?w \<Longrightarrow> continuation (s ! i)"
  proof -
    fix i assume i: "k < i" "i < k + ?w"
    then have "1 \<le> i - k \<and> i - k < ?w" by arith
    then have "continuation (?u ! (i - k))" using m(5) by blast
    then show "continuation (s ! i)" using i k by simp
  qed
  have last_t: "last ?t = s ! (j - 1)" using t lt nth [of "j - 1"] j by (simp add: last_conv_nth)
  have hi: "\<not> byte (last ?t) < 0x80"
  proof (cases "j - 1 = k")
    case True
    then show ?thesis using last_t lead by simp
  next
    case False
    then have "k < j - 1" "j - 1 < k + ?w" using j by simp_all
    then have "continuation (s ! (j - 1))" by (rule cont)
    then show ?thesis using last_t continuation_high by simp
  qed
  define start where "start = max 0 (scan_back ?t (max 0 (int (length ?t) - 4)) (int (length ?t) - 2))"
  define st where "st = nat start"
  let ?v = "drop st ?t"
  have e: "DecodeLastRuneInString ?t =
      (if start + int (snd (DecodeRuneInString ?v)) \<noteq> int (length ?t) then (RuneError, 1)
       else DecodeRuneInString ?v)"
    unfolding st_def start_def by (rule DecodeLastRuneInString_scan [OF t hi, unfolded Let_def])
  have s0: "0 \<le> start" by (simp add: start_def)
  have "scan_back ?t (max 0 (int (length ?t) - 4)) (int (length ?t) - 2) \<le> int (length ?t) - 2"
    by (rule scan_back_le)
  then have "start \<le> max 0 (int j - 2)" using lt by (simp add: start_def)
  then have stj: "st < j" using j by (simp add: st_def)
  have v: "?v \<noteq> []" using stj lt by simp
  have sum: "st + snd (DecodeRuneInString ?v) = j" and fv: "fst (DecodeRuneInString ?v) \<noteq> RuneError"
    using ne e s0 lt by (auto simp: st_def split: if_splits)
  have v0: "?v ! 0 = s ! st" using stj lt by simp
  show False
  proof (cases "snd (DecodeRuneInString ?v) = 1")
    case True
    from DecodeRuneInString_single(1) [OF v fv True]
    have "byte (s ! st) < 0x80" using v0 by simp
    moreover have "st = j - 1" using sum True by simp
    ultimately show False using hi last_t by simp
  next
    case False
    have "1 \<le> snd (DecodeRuneInString ?v)" using DecodeRuneInString_width [OF v] by simp
    then have v2: "2 \<le> snd (DecodeRuneInString ?v)" using False by simp
    note n = DecodeRuneInString_multi [OF v fv v2]
    have lead': "0xC2 \<le> byte (s ! st)" using n(1) v0 by simp
    have cont': "\<And>i. st < i \<Longrightarrow> i < j \<Longrightarrow> continuation (s ! i)"
    proof -
      fix i assume i: "st < i" "i < j"
      then have "1 \<le> i - st \<and> i - st < snd (DecodeRuneInString ?v)" using sum by arith
      then have "continuation (?v ! (i - st))" using n(5) by blast
      moreover have "?v ! (i - st) = s ! i" using i lt by simp
      ultimately show "continuation (s ! i)" by simp
    qed
    consider "st < k" | "k < st" | "st = k" by arith
    then show False
    proof cases
      case 1
      then have "continuation (s ! k)" using cont' [of k] j by simp
      then show False using lead continuation_not_lead by blast
    next
      case 2
      then have "continuation (s ! st)" using cont [of st] stj j by simp
      then show False using lead' continuation_not_lead by blast
    next
      case 3
      have vv: "?v = take (j - k) ?u" using 3 by (simp add: drop_take)
      have "length ?v = j - k" using 3 lt by simp
      moreover have "?v ! 0 = ?u ! 0" using v0 3 k by simp
      ultimately have "DecodeRuneInString ?v = (RuneError, 1)"
        using v m(2,3) j by (intro DecodeRuneInString_truncated) simp_all
      then show False using fv by simp
    qed
  qed
qed

lemma zero_boundary: "0 \<in> set (rune_boundaries s)"
  by (cases "s = []") (simp_all add: rune_boundaries_def range_from_zero)

lemma boundary_le: "k \<in> set (rune_boundaries s) \<Longrightarrow> k \<le> length s"
  using range_from_bound [of k s 0] by (auto simp: rune_boundaries_def)

lemma range_cover:
  "i \<le> j \<Longrightarrow> j < length s \<Longrightarrow>
   \<exists>k\<in>set (range_from s i). k \<le> j \<and> j < k + snd (DecodeRuneInString (drop k s))"
proof (induction s i rule: range_from.induct)
  case (1 s i)
  let ?w = "snd (DecodeRuneInString (drop i s))"
  have il: "i < length s" using "1.prems" by simp
  then have r: "range_from s i = i # range_from s (i + ?w)" by (rule range_from_step)
  show ?case
  proof (cases "j < i + ?w")
    case True
    then show ?thesis using r "1.prems" by auto
  next
    case False
    then have "\<exists>k\<in>set (range_from s (i + ?w)). k \<le> j \<and> j < k + snd (DecodeRuneInString (drop k s))"
      using "1.IH" [OF il] "1.prems" by simp
    then show ?thesis using r by auto
  qed
qed

lemma range_pred:
  "i \<le> length s \<Longrightarrow> k \<in> set (range_from s i) \<or> k = length s \<Longrightarrow> i < k \<Longrightarrow>
   \<exists>k0\<in>set (range_from s i). k = k0 + snd (DecodeRuneInString (drop k0 s))"
proof (induction s i rule: range_from.induct)
  case (1 s i)
  let ?w = "snd (DecodeRuneInString (drop i s))"
  have kl: "k \<le> length s" using "1.prems"(2) range_from_bound [of k s i] by auto
  then have il: "i < length s" using "1.prems"(3) by simp
  then have r: "range_from s i = i # range_from s (i + ?w)" by (rule range_from_step)
  have "?w \<le> length (drop i s)" using DecodeRuneInString_width [of "drop i s"] il by simp
  then have w: "i + ?w \<le> length s" using il by simp
  show ?case
  proof (cases "k = i + ?w")
    case True
    then show ?thesis using r by simp
  next
    case False
    have m: "k \<in> set (range_from s (i + ?w)) \<or> k = length s"
      using "1.prems"(2,3) r by auto
    then have "i + ?w \<le> k" using range_from_bound [of k s "i + ?w"] w by auto
    then have "i + ?w < k" using False by simp
    then have "\<exists>k0\<in>set (range_from s (i + ?w)). k = k0 + snd (DecodeRuneInString (drop k0 s))"
      using "1.IH" [OF il w m] by simp
    then show ?thesis using r by auto
  qed
qed

lemma clean_rune: "clean_utf8 s \<Longrightarrow> k \<in> set (range_from s 0) \<Longrightarrow>
    fst (DecodeRuneInString (drop k s)) \<noteq> RuneError"
  by (simp add: clean_utf8_def list_all_iff)

lemma clean_boundary_decodes:
  assumes "clean_utf8 s" and "k \<in> set (rune_boundaries s)" and "0 < k"
  shows "fst (DecodeLastRuneInString (take k s)) \<noteq> RuneError"
proof -
  have "k \<in> set (range_from s 0) \<or> k = length s" using assms(2) by (auto simp: rune_boundaries_def)
  then obtain k0 where k0: "k0 \<in> set (range_from s 0)" and k: "k = k0 + snd (DecodeRuneInString (drop k0 s))"
    using range_pred [of 0 s k] assms(3) by auto
  have l: "k0 < length s" using range_from_bound [OF k0] by simp
  have f: "fst (DecodeRuneInString (drop k0 s)) \<noteq> RuneError" using assms(1) k0 by (rule clean_rune)
  obtain r w where d: "DecodeRuneInString (drop k0 s) = (r, w)" by (cases "DecodeRuneInString (drop k0 s)") auto
  then have "DecodeLastRuneInString (take (k0 + w) s) = (r, w)"
    using f by (intro DecodeLast_at_boundary [OF l]) simp_all
  then show ?thesis using d f k by simp
qed

lemma clean_inside_error:
  assumes "clean_utf8 s" and "j \<le> length s" and "j \<notin> set (rune_boundaries s)"
  shows "fst (DecodeLastRuneInString (take j s)) = RuneError"
proof -
  have jl: "j < length s" and nr: "j \<notin> set (range_from s 0)"
    using assms(2,3) by (auto simp: rune_boundaries_def)
  obtain k where k: "k \<in> set (range_from s 0)" "k \<le> j" "j < k + snd (DecodeRuneInString (drop k s))"
    using range_cover [of 0 j s] jl by auto
  have "k < j" using k nr by (cases "k = j") auto
  moreover have "k < length s" using range_from_bound [OF k(1)] by simp
  moreover have "fst (DecodeRuneInString (drop k s)) \<noteq> RuneError" using assms(1) k(1) by (rule clean_rune)
  ultimately show ?thesis using k(3) by (intro DecodeLast_inside [of k s j]) simp_all
qed

lemma boundary_near:
  assumes "off \<le> length s"
  shows "\<exists>k\<in>set (rune_boundaries s). k \<le> off \<and> off - k \<le> 3"
proof (cases "off = length s")
  case True
  then show ?thesis by (auto simp: rune_boundaries_def)
next
  case False
  then have "off < length s" using assms by simp
  then obtain k where k: "k \<in> set (range_from s 0)" "k \<le> off" "off < k + snd (DecodeRuneInString (drop k s))"
    using range_cover [of 0 off s] by auto
  have "drop k s \<noteq> []" using range_from_bound [OF k(1)] by simp
  then have "snd (DecodeRuneInString (drop k s)) \<le> 4" using DecodeRuneInString_width by blast
  then have "off - k \<le> 3" using k by simp
  then show ?thesis using k by (auto simp: rune_boundaries_def)
qed

text \<open>On a clean text the backward loop of \<open>ClipMessage\<close> stops at the last rune boundary
  at or before the offset, at most 3 bytes back.\<close>

lemma clip_back_clean:
  assumes c: "clean_utf8 s" and off: "off \<le> length s"
  shows "length (clip_back (take off s)) \<in> set (rune_boundaries s)"
    and "length (clip_back (take off s)) \<le> off"
    and "off - length (clip_back (take off s)) \<le> 3"
    and "\<forall>j\<in>set (rune_boundaries s). j \<le> off \<longrightarrow> j \<le> length (clip_back (take off s))"
    and "clip_back (take off s) = take (length (clip_back (take off s))) s"
proof -
  let ?k = "length (clip_back (take off s))"
  note f = back_up_clip [OF off]
  show le: "?k \<le> off" by (rule f(1))
  show "clip_back (take off s) = take ?k s" by (rule f(2))
  show b: "?k \<in> set (rune_boundaries s)"
  proof (cases "?k = 0")
    case True
    then show ?thesis using zero_boundary by simp
  next
    case False
    then have "fst (DecodeLastRuneInString (take ?k s)) \<noteq> RuneError" using f(3) by blast
    moreover have "?k \<le> length s" using le off by simp
    ultimately show ?thesis using clean_inside_error [OF c] by blast
  qed
  show m: "\<forall>j\<in>set (rune_boundaries s). j \<le> off \<longrightarrow> j \<le> ?k"
  proof (intro ballI impI)
    fix j assume j: "j \<in> set (rune_boundaries s)" "j \<le> off"
    show "j \<le> ?k"
    proof (rule ccontr)
      assume "\<not> j \<le> ?k"
      then have "?k < j \<and> j \<le> off" using j by simp
      then have "fst (DecodeLastRuneInString (take j s)) = RuneError" using f(4) by blast
      moreover have "0 < j" using \<open>\<not> j \<le> ?k\<close> by simp
      ultimately show False using clean_boundary_decodes [OF c j(1)] by simp
    qed
  qed
  obtain k' where "k' \<in> set (rune_boundaries s)" "k' \<le> off" "off - k' \<le> 3"
    using boundary_near [OF off] by blast
  then show "off - ?k \<le> 3" using m by force
qed

lemma chunk_loop_clean:
  assumes c: "clean_utf8 s" and l4: "4 \<le> l" and ll: "l \<le> int (length s)"
  shows "length (chunk_loop s l 0 []) \<in> set (rune_boundaries s)"
    and "int (length (chunk_loop s l 0 [])) \<le> l"
    and "l - int (length (chunk_loop s l 0 [])) \<le> 3"
    and "\<forall>j\<in>set (rune_boundaries s). int j \<le> l \<longrightarrow> j \<le> length (chunk_loop s l 0 [])"
    and "chunk_loop s l 0 [] = take (length (chunk_loop s l 0 [])) s"
    and "fst (DecodeLastRuneInString (chunk_loop s l 0 [])) \<noteq> RuneError"
proof -
  let ?k = "length (chunk_loop s l 0 [])"
  obtain w where w: "0 \<le> w" "w < 4" "w < l" and ch: "chunk_loop s l 0 [] = take (nat (l - w)) s"
    and sk: "\<forall>j. 0 \<le> j \<and> j < w \<longrightarrow> fst (DecodeLastRuneInString (take (nat (l - j)) s)) = RuneError"
    and en: "fst (DecodeLastRuneInString (take (nat (l - w)) s)) \<noteq> RuneError \<or> w = min 3 (l - 1)"
    using chunk_loop_spec [of 0 l s "[]"] l4 by auto
  have k: "?k = nat (l - w)" using ch w ll by simp
  have "nat l \<le> length s" using ll by simp
  then obtain k' where k': "k' \<in> set (rune_boundaries s)" "k' \<le> nat l" "nat l - k' \<le> 3"
    using boundary_near [of "nat l" s] by blast
  have k'0: "0 < k'" using k' l4 by simp
  have dk': "fst (DecodeLastRuneInString (take k' s)) \<noteq> RuneError"
    using clean_boundary_decodes [OF c k'(1) k'0] .
  define w' where "w' = l - int k'"
  have w'r: "0 \<le> w'" "w' \<le> 3" using k' l4 by (simp_all add: w'_def)
  have "nat (l - w') = k'" by (simp add: w'_def)
  then have nw: "\<not> w' < w" using sk dk' w'r by force
  have good: "fst (DecodeLastRuneInString (take (nat (l - w)) s)) \<noteq> RuneError"
  proof (rule ccontr)
    assume a: "\<not> fst (DecodeLastRuneInString (take (nat (l - w)) s)) \<noteq> RuneError"
    then have "w = 3" using en l4 by simp
    then have "w' = w" using nw w'r by simp
    then show False using a dk' \<open>nat (l - w') = k'\<close> by simp
  qed
  show "fst (DecodeLastRuneInString (chunk_loop s l 0 [])) \<noteq> RuneError" using good ch by simp
  show "chunk_loop s l 0 [] = take ?k s" using ch k by simp
  show "int ?k \<le> l" using k w by simp
  show "l - int ?k \<le> 3" using k w by simp
  have kl: "?k \<le> length s" using k ll w by simp
  show "?k \<in> set (rune_boundaries s)"
    using clean_inside_error [OF c kl] good k by auto
  show "\<forall>j\<in>set (rune_boundaries s). int j \<le> l \<longrightarrow> j \<le> ?k"
  proof (intro ballI impI)
    fix j assume j: "j \<in> set (rune_boundaries s)" "int j \<le> l"
    show "j \<le> ?k"
    proof (rule ccontr)
      assume n: "\<not> j \<le> ?k"
      define x where "x = l - int j"
      have "0 \<le> x \<and> x < w" using n j k w by (simp add: x_def)
      then have "fst (DecodeLastRuneInString (take (nat (l - x)) s)) = RuneError" using sk by blast
      moreover have "nat (l - x) = j" by (simp add: x_def)
      moreover have "0 < j" using n by simp
      ultimately show False using clean_boundary_decodes [OF c j(1)] by simp
    qed
  qed
qed

lemma range_from_shift:
  "b \<le> length s \<Longrightarrow> range_from s (b + i) = map (\<lambda>x. x + b) (range_from (drop b s) i)"
proof (induction "drop b s" i rule: range_from.induct)
  case (1 i)
  let ?w = "snd (DecodeRuneInString (drop i (drop b s)))"
  show ?case
  proof (cases "i < length (drop b s)")
    case True
    then have bi: "b + i < length s" by simp
    have d: "drop (b + i) s = drop i (drop b s)" by (simp add: add.commute)
    have "range_from s (b + i) = (b + i) # range_from s (b + i + ?w)"
      using range_from_step [OF bi] d by simp
    moreover have "range_from (drop b s) i = i # range_from (drop b s) (i + ?w)"
      using True by (rule range_from_step)
    moreover have "range_from s (b + (i + ?w)) = map (\<lambda>x. x + b) (range_from (drop b s) (i + ?w))"
      using "1.hyps" [OF True] "1.prems" by simp
    ultimately show ?thesis by (simp add: add.assoc add.commute)
  next
    case False
    then have "\<not> b + i < length s" by simp
    then show ?thesis using False by (simp add: range_from_stop)
  qed
qed

lemma range_from_suffix:
  "b \<in> set (range_from s i) \<Longrightarrow> set (range_from s b) \<subseteq> set (range_from s i)"
proof (induction s i rule: range_from.induct)
  case (1 s i)
  let ?w = "snd (DecodeRuneInString (drop i s))"
  have il: "i < length s" using range_from_bound [OF "1.prems"] by simp
  then have r: "range_from s i = i # range_from s (i + ?w)" by (rule range_from_step)
  show ?case
  proof (cases "b = i")
    case True
    then show ?thesis by simp
  next
    case False
    then have "b \<in> set (range_from s (i + ?w))" using "1.prems" r by simp
    then have "set (range_from s b) \<subseteq> set (range_from s (i + ?w))" using "1.IH" [OF il] by simp
    then show ?thesis using r by auto
  qed
qed

lemma boundaries_drop:
  assumes "b \<in> set (rune_boundaries s)" and "j \<in> set (rune_boundaries (drop b s))"
  shows "b + j \<in> set (rune_boundaries s)"
proof -
  have bl: "b \<le> length s" using assms(1) by (rule boundary_le)
  show ?thesis
  proof (cases "j = length (drop b s)")
    case True
    then show ?thesis using bl by (simp add: rune_boundaries_def)
  next
    case False
    then have "j \<in> set (range_from (drop b s) 0)" using assms(2) by (simp add: rune_boundaries_def)
    then have m: "b + j \<in> set (range_from s b)"
      using range_from_shift [OF bl, of 0] by (auto simp: add.commute)
    then have "b < length s" using range_from_bound [of "b + j" s b] by simp
    then have "b \<in> set (range_from s 0)" using assms(1) by (simp add: rune_boundaries_def)
    then have "set (range_from s b) \<subseteq> set (range_from s 0)" by (rule range_from_suffix)
    then show ?thesis using m by (auto simp: rune_boundaries_def)
  qed
qed

lemma clean_drop:
  assumes "clean_utf8 s" and "b \<in> set (rune_boundaries s)"
  shows "clean_utf8 (drop b s)"
  unfolding clean_utf8_def list_all_iff
proof
  fix x assume x: "x \<in> set (range_from (drop b s) 0)"
  then have "x \<in> set (rune_boundaries (drop b s))" by (simp add: rune_boundaries_def)
  then have "b + x \<in> set (rune_boundaries s)" using assms(2) boundaries_drop by blast
  moreover have "x < length (drop b s)" using range_from_bound [OF x] by simp
  ultimately have "b + x \<in> set (range_from s 0)" by (auto simp: rune_boundaries_def)
  then have "fst (DecodeRuneInString (drop (b + x) s)) \<noteq> RuneError" using assms(1) by (intro clean_rune)
  then show "fst (DecodeRuneInString (drop x (drop b s))) \<noteq> RuneError" by (simp add: add.commute)
qed

lemma clean_ends_complete: "clean_utf8 s \<Longrightarrow> ends_complete s"
proof (cases "s = []")
  case True
  then show ?thesis by (simp add: ends_complete_def)
next
  case False
  assume c: "clean_utf8 s"
  have "length s \<in> set (rune_boundaries s)" by (simp add: rune_boundaries_def)
  then have "fst (DecodeLastRuneInString (take (length s) s)) \<noteq> RuneError"
    using c False by (intro clean_boundary_decodes) simp_all
  then show ?thesis by (simp add: ends_complete_def)
qed

lemma iterates_clean:
  assumes c: "clean_utf8 t" and l4: "4 \<le> l"
  shows "iterates l s t st \<Longrightarrow>
     (\<exists>b\<in>set (rune_boundaries t). snd st = drop b t)
     \<and> (\<forall>f\<in>set (fst st). between_runes t f \<and> ends_complete f)"
proof (induction rule: iterates.induct)
  case start
  have "t = drop 0 t" by simp
  then show ?case using zero_boundary [of t] by (metis empty_iff fst_conv list.set(1) snd_conv)
next
  case (step st)
  then obtain b where b: "b \<in> set (rune_boundaries t)" "snd st = drop b t" by blast
  let ?rem = "snd st"
  have cr: "clean_utf8 ?rem" using clean_drop [OF c b(1)] b(2) by simp
  have ll: "l \<le> int (length ?rem)" using step.hyps by simp
  note k = chunk_loop_clean [OF cr l4 ll]
  let ?chunk = "chunk_loop ?rem l 0 []"
  let ?c = "length ?chunk"
  have b': "b + ?c \<in> set (rune_boundaries t)" using boundaries_drop [OF b(1)] k(1) b(2) by simp
  have ch: "?chunk = take ((b + ?c) - b) (drop b t)" using k(5) b(2) by simp
  have "between_runes t ?chunk"
    unfolding between_runes_def using b(1) b' ch by (intro bexI [of _ b] bexI [of _ "b + ?c"]) simp_all
  moreover have "ends_complete ?chunk" using k(6) by (simp add: ends_complete_def)
  moreover have "drop ?c ?rem = drop (b + ?c) t" using b(2) by (simp add: add.commute)
  ultimately show ?case using step.IH b' by (auto simp: split_body_def Let_def)
qed

lemma ClipOrSplitMessage_clean:
  assumes c: "clean_utf8 t" and l4: "4 \<le> l" and i: "is_int64 l" and g: "go_sized t m"
    and r: "ClipOrSplitMessage t l m s = Inr res"
  shows "\<forall>f\<in>set (butlast res). between_runes t f \<and> ends_complete f"
    and "(between_runes t (last res) \<and> ends_complete (last res))
       \<or> (\<exists>g. between_runes t g \<and> ends_complete g \<and> last res = g @ effective_marker m)"
proof -
  let ?st = "split_loop l s ([], t)"
  obtain x where x: "ClipMessage (snd ?st) l m = Inr x" and res: "res = fst ?st @ [x]"
    using r by (auto simp: ClipOrSplitMessage_Inr)
  have it: "iterates l s t ?st" by (rule iterates_split_loop) (rule iterates.start)
  from iterates_clean [OF c l4 it]
  obtain b where b: "b \<in> set (rune_boundaries t)" "snd ?st = drop b t"
    and p: "\<forall>f\<in>set (fst ?st). between_runes t f \<and> ends_complete f"
    by blast
  show "\<forall>f\<in>set (butlast res). between_runes t f \<and> ends_complete f" using p res by simp
  let ?rem = "snd ?st"
  have cr: "clean_utf8 ?rem" using clean_drop [OF c b(1)] b(2) by simp
  have bl: "b \<le> length t" using b(1) by (rule boundary_le)
  have gs: "go_sized ?rem m" using g b(2) by (simp add: go_sized_def)
  show "(between_runes t (last res) \<and> ends_complete (last res))
       \<or> (\<exists>g. between_runes t g \<and> ends_complete g \<and> last res = g @ effective_marker m)"
  proof (cases "l < int (length ?rem)")
    case False
    then have "x = ?rem" using x by (simp add: ClipMessage_def Let_def)
    moreover have "?rem = take (length t - b) (drop b t)" using b(2) by simp
    then have "between_runes t ?rem"
      unfolding between_runes_def using b(1) bl
      by (intro bexI [of _ b] bexI [of _ "length t"]) (simp_all add: rune_boundaries_def)
    moreover have "ends_complete ?rem" using cr by (rule clean_ends_complete)
    ultimately show ?thesis using res by simp
  next
    case True
    let ?off = "nat (l - int (length (effective_marker m)))"
    from ClipMessage_long_Inr [OF x True i gs]
    have cm: "int (length (effective_marker m)) \<le> l"
      and xe: "x = clip_back (take ?off ?rem) @ effective_marker m" by simp_all
    have off: "?off \<le> length ?rem" using True by simp
    note k = clip_back_clean [OF cr off]
    let ?g = "clip_back (take ?off ?rem)"
    have b': "b + length ?g \<in> set (rune_boundaries t)" using boundaries_drop [OF b(1)] k(1) b(2) by simp
    have "?g = take ((b + length ?g) - b) (drop b t)" using k(5) b(2) by simp
    then have "between_runes t ?g"
      unfolding between_runes_def using b(1) b' by (intro bexI [of _ b] bexI [of _ "b + length ?g"]) simp_all
    moreover have "ends_complete ?g" using clip_back_ends_well [of "take ?off ?rem"] by (auto simp: ends_complete_def)
    ultimately show ?thesis using xe res by auto
  qed
qed

lemma chunk_loop_steps:
  assumes "0 < l" and "l \<le> int (length buf)"
  shows "chunk_loop buf l 0 [] = take (length (chunk_loop buf l 0 [])) buf"
    and "1 \<le> length (chunk_loop buf l 0 [])"
    and "int (length (chunk_loop buf l 0 [])) \<le> l"
    and "l - int (length (chunk_loop buf l 0 [])) \<le> 3"
proof -
  obtain w where w: "0 \<le> w" "w < 4" "w < l" and ch: "chunk_loop buf l 0 [] = take (nat (l - w)) buf"
    using chunk_loop_spec [of 0 l buf "[]"] assms(1) by auto
  have k: "length (chunk_loop buf l 0 []) = nat (l - w)" using ch w assms(2) by simp
  show "chunk_loop buf l 0 [] = take (length (chunk_loop buf l 0 [])) buf" using ch k by simp
  show "1 \<le> length (chunk_loop buf l 0 [])" using k w by simp
  show "int (length (chunk_loop buf l 0 [])) \<le> l" using k w by simp
  show "l - int (length (chunk_loop buf l 0 [])) \<le> 3" using k w by simp
qed

lemma euro_clean: "clean_utf8 euro_text"
  by code_simp

lemma euro_boundaries: "rune_boundaries euro_text = [0, 1, 4, 5]"
  by code_simp

lemma euro_chunk_four: "chunk_loop euro_text 4 0 [] = take 4 euro_text"
  by code_simp

lemma euro_twice_split:
  "ClipOrSplitMessage euro_twice 4 ''_'' 3 = Inr [take 3 euro_twice, drop 3 euro_twice]"
  by code_simp

lemma euro_twice_clean: "clean_utf8 euro_twice"
  by code_simp

section \<open>The claims\<close>

text \<open>
  C1 (as amended). For a budget greater than 0 (a 64-bit \<open>int\<close>): every fragment returned
  by \<open>GetSubLines\<close> has byte length at most the budget, provided that every rune of the
  lines of the message is at most \<open>W\<close> bytes wide for a \<open>W\<close> that is at most the length of
  the effective marker and that leaves room for the marker,
  \<open>len(marker) + W \<le> maxLineLength\<close>; \<open>W = 4\<close> bounds the runes of every message. Every
  fragment of \<open>GetSubLines\<close> is cut from a non-empty line of the message at the starts of
  its runes: it is the line, or the line from one rune start to a later one followed by the
  marker, or the rest of the line from a rune start. Every fragment returned by
  \<open>ClipOrSplitMessage\<close>, whenever it returns, has byte length at most the budget (text and
  marker fitting in memory together). For a text that is valid UTF-8 with no U+FFFD
  encoded in it and a budget of at least 4, no fragment of \<open>ClipOrSplitMessage\<close> cuts a
  character: every fragment before the last is a piece of the text between two of its
  rune boundaries and ends at a complete character, and the last fragment is such a piece,
  or such a piece followed by the marker.
\<close>

theorem fragment_bounds:
  "(is_int64 M \<and> 0 < M
      \<and> (\<forall>line\<in>set (Split (TrimSpace message)). \<forall>x\<in>set (rune_widths line). x \<le> W)
      \<and> W \<le> length (effective_marker m) \<and> int (length (effective_marker m)) + int W \<le> M
      \<longrightarrow> (\<forall>f\<in>set (GetSubLines message M m). int (length f) \<le> M))
   \<and> (is_int64 M \<and> 4 \<le> length (effective_marker m) \<and> int (length (effective_marker m)) + 4 \<le> M
      \<longrightarrow> (\<forall>f\<in>set (GetSubLines message M m). int (length f) \<le> M))
   \<and> (\<forall>f\<in>set (GetSubLines message M m).
        \<exists>line\<in>set (Split (TrimSpace message)). line \<noteq> [] \<and> cut_at_runes line (effective_marker m) f)
   \<and> (is_int64 l \<and> 0 < l \<and> go_sized t m \<and> ClipOrSplitMessage t l m s = Inr res
      \<longrightarrow> (\<forall>f\<in>set res. int (length f) \<le> l))
   \<and> (clean_utf8 t \<and> is_int64 l \<and> 4 \<le> l \<and> go_sized t m \<and> ClipOrSplitMessage t l m s = Inr res
      \<longrightarrow> (\<forall>f\<in>set (butlast res). between_runes t f \<and> ends_complete f)
        \<and> ((between_runes t (last res) \<and> ends_complete (last res))
           \<or> (\<exists>g. between_runes t g \<and> ends_complete g \<and> last res = g @ effective_marker m)))"
proof (intro conjI impI)
  assume "is_int64 M \<and> 0 < M
      \<and> (\<forall>line\<in>set (Split (TrimSpace message)). \<forall>x\<in>set (rune_widths line). x \<le> W)
      \<and> W \<le> length (effective_marker m) \<and> int (length (effective_marker m)) + int W \<le> M"
  then show "\<forall>f\<in>set (GetSubLines message M m). int (length f) \<le> M"
    by (intro GetSubLines_length [of M message W m]) simp_all
next
  assume a: "is_int64 M \<and> 4 \<le> length (effective_marker m) \<and> int (length (effective_marker m)) + 4 \<le> M"
  have "\<forall>line\<in>set (Split (TrimSpace message)). \<forall>x\<in>set (rune_widths line). x \<le> 4"
    using rune_widths_le_4 by blast
  then show "\<forall>f\<in>set (GetSubLines message M m). int (length f) \<le> M"
    using a by (intro GetSubLines_length [of M message 4 m]) simp_all
next
  show "\<forall>f\<in>set (GetSubLines message M m).
        \<exists>line\<in>set (Split (TrimSpace message)). line \<noteq> [] \<and> cut_at_runes line (effective_marker m) f"
    by (rule GetSubLines_cut_at_runes)
next
  assume "is_int64 l \<and> 0 < l \<and> go_sized t m \<and> ClipOrSplitMessage t l m s = Inr res"
  then show "\<forall>f\<in>set res. int (length f) \<le> l"
    using ClipOrSplitMessage_length [of t l m s res] by simp
next
  assume a: "clean_utf8 t \<and> is_int64 l \<and> 4 \<le> l \<and> go_sized t m \<and> ClipOrSplitMessage t l m s = Inr res"
  then show "\<forall>f\<in>set (butlast res). between_runes t f \<and> ends_complete f"
    using ClipOrSplitMessage_clean(1) [of t l m s res] by blast
next
  assume a: "clean_utf8 t \<and> is_int64 l \<and> 4 \<le> l \<and> go_sized t m \<and> ClipOrSplitMessage t l m s = Inr res"
  then show "(between_runes t (last res) \<and> ends_complete (last res))
           \<or> (\<exists>g. between_runes t g \<and> ends_complete g \<and> last res = g @ effective_marker m)"
    using ClipOrSplitMessage_clean(2) [of t l m s res] by blast
qed

theorem fragment_bounds_witness:
  "is_int64 3 \<and> (0::int) < 3 \<and> Split (TrimSpace ''abcdef'') = [''abcdef'']
   \<and> rune_widths ''abcdef'' = [1, 1, 1, 1, 1, 1]
   \<and> (1::nat) \<le> length (effective_marker ''_'') \<and> int (length (effective_marker ''_'')) + int 1 \<le> 3
   \<and> GetSubLines ''abcdef'' 3 ''_'' = [''ab_'', ''cd_'', ''ef'']
   \<and> list_all (\<lambda>f. int (length f) \<le> 3) (GetSubLines ''abcdef'' 3 ''_'')
   \<and> is_int64 24 \<and> (4::nat) \<le> length (effective_marker []) \<and> int (length (effective_marker [])) + 4 \<le> 24
   \<and> list_all (\<lambda>f. int (length f) \<le> 24) (GetSubLines ''abcdefghijklmnopqrstuvwxyz'' 24 [])
   \<and> is_int64 4 \<and> (0::int) < 4 \<and> go_sized ''abcdefghij'' ''_''
   \<and> ClipOrSplitMessage ''abcdefghij'' 4 ''_'' 3 = Inr [''abcd'', ''efgh'', ''ij'']
   \<and> list_all (\<lambda>f. int (length f) \<le> 4) [''abcd'', ''efgh'', ''ij'']
   \<and> clean_utf8 euro_twice \<and> (4::int) \<le> 4 \<and> go_sized euro_twice ''_''
   \<and> ClipOrSplitMessage euro_twice 4 ''_'' 3 = Inr [take 3 euro_twice, drop 3 euro_twice]
   \<and> between_runes euro_twice (take 3 euro_twice) \<and> ends_complete (take 3 euro_twice)"
proof -
  have i: "is_int64 3" "is_int64 24" "is_int64 4" by (simp_all add: is_int64_def)
  have m: "effective_marker ''_'' = ''_''" "length (effective_marker []) = 18"
    by (simp_all add: effective_marker_def default_clippingMessage_def)
  have g: "go_sized ''abcdefghij'' ''_''" "go_sized euro_twice ''_''"
    by (simp_all add: go_sized_def m euro_twice_def)
  have w: "\<forall>line\<in>set (Split (TrimSpace ''abcdef'')). \<forall>x\<in>set (rune_widths line). x \<le> 1"
    by (simp add: abcdef_lines abcdef_widths)
  have r: "ClipOrSplitMessage ''abcdefghij'' 4 ''_'' 3 = Inr [''abcd'', ''efgh'', ''ij'']"
    by code_simp
  have a: "\<forall>f\<in>set (GetSubLines ''abcdef'' 3 ''_''). int (length f) \<le> 3"
    using fragment_bounds [where M = 3 and message = "''abcdef''" and W = 1 and m = "''_''"] i w m
    by simp
  have b: "\<forall>f\<in>set (GetSubLines ''abcdefghijklmnopqrstuvwxyz'' 24 []). int (length f) \<le> 24"
    using fragment_bounds [where M = 24 and message = "''abcdefghijklmnopqrstuvwxyz''" and m = "[]"] i m
    by simp
  have c: "\<forall>f\<in>set [''abcd'', ''efgh'', ''ij'']. int (length f) \<le> 4"
    using fragment_bounds [where m = "''_''" and l = 4 and t = "''abcdefghij''" and s = 3
        and res = "[''abcd'', ''efgh'', ''ij'']"] i g r
    by simp
  have d: "between_runes euro_twice (take 3 euro_twice) \<and> ends_complete (take 3 euro_twice)"
    using fragment_bounds [where m = "''_''" and l = 4 and t = euro_twice and s = 3
        and res = "[take 3 euro_twice, drop 3 euro_twice]"] i g euro_twice_clean euro_twice_split
    by simp
  show ?thesis
    using i m g r a b c d abcdef_lines abcdef_widths abcdef_sub_lines euro_twice_clean euro_twice_split
    by (simp add: list_all_iff)
qed

theorem fragment_bounds_counterexample:
  "GetSubLines ''ab'' 1 ''_'' = [''_'', ''ab''] \<and> \<not> int (length ''ab'') \<le> 1
   \<and> GetSubLines [CHR ''a'', CHR ''b'', CHR 0xE2, CHR 0x82, CHR 0xAC] 4 ''_''
       = [[CHR ''a'', CHR ''b'', CHR 0xE2, CHR 0x82, CHR 0xAC]]
   \<and> \<not> int (length [CHR ''a'', CHR ''b'', CHR 0xE2, CHR 0x82, CHR 0xAC]) \<le> 4
   \<and> ClipOrSplitMessage replacement_text 8 ''_'' 3
       = Inr [take 5 replacement_text, drop 5 replacement_text]
   \<and> \<not> ends_complete (take 5 replacement_text)
   \<and> ClipOrSplitMessage euro_twice 2 ''_'' 3 = Inr [[CHR 0xE2], [CHR 0x82], ''_'']
   \<and> \<not> ends_complete [CHR 0xE2]"
  by code_simp

text \<open>
  C2. \<open>ClipOrSplitMessage\<close> loses no text while it splits. At every iteration of its
  loop the parts emitted so far, concatenated in order, followed by the remaining text are
  the original text; so every part is the contiguous piece of the text that starts where
  the parts before it end, and the parts are a prefix of the text with no byte lost,
  duplicated or reordered. The result of \<open>ClipOrSplitMessage\<close> is the parts of such an
  iteration followed by \<open>ClipMessage\<close> of its remaining text.
\<close>

theorem segment_accounts_for_every_byte:
  "(iterates l s t (parts, rem) \<longrightarrow>
      concat parts @ rem = t
      \<and> (\<forall>i<length parts.
            parts ! i = take (length (parts ! i)) (drop (length (concat (take i parts))) t)))
   \<and> (ClipOrSplitMessage t l m s = Inr res \<longrightarrow>
        (\<exists>rem. iterates l s t (butlast res, rem) \<and> ClipMessage rem l m = Inr (last res)))"
proof (intro conjI impI allI)
  assume it: "iterates l s t (parts, rem)"
  then show c: "concat parts @ rem = t" using iterates_concat by fastforce
  fix i assume "i < length parts"
  then show "parts ! i = take (length (parts ! i)) (drop (length (concat (take i parts))) t)"
    using concat_nth_piece [of i parts rem] c by simp
next
  assume "ClipOrSplitMessage t l m s = Inr res"
  then obtain r where r: "ClipMessage (snd (split_loop l s ([], t))) l m = Inr r"
    and res: "res = fst (split_loop l s ([], t)) @ [r]"
    by (auto simp: ClipOrSplitMessage_Inr)
  have "iterates l s t (split_loop l s ([], t))"
    by (rule iterates_split_loop) (rule iterates.start)
  then have "iterates l s t (butlast res, snd (split_loop l s ([], t)))"
    using res by simp
  then show "\<exists>rem. iterates l s t (butlast res, rem) \<and> ClipMessage rem l m = Inr (last res)"
    using r res by (intro exI [of _ "snd (split_loop l s ([], t))"]) simp
qed

theorem segment_accounts_for_every_byte_witness:
  "iterates 4 3 ''abcdefghij'' ([''abcd''], ''efghij'')
   \<and> concat [''abcd''] @ ''efghij'' = ''abcdefghij''
   \<and> ClipOrSplitMessage ''abcdefghij'' 4 ''_'' 3 = Inr [''abcd'', ''efgh'', ''ij'']
   \<and> (\<exists>rem. iterates 4 3 ''abcdefghij'' ([''abcd'', ''efgh''], rem)
          \<and> ClipMessage rem 4 ''_'' = Inr ''ij'')"
proof -
  have "iterates 4 3 ''abcdefghij'' (split_body 4 ([], ''abcdefghij''))"
    by (rule iterates.step [OF iterates.start]) (simp_all add: wrap64_def)
  then have it: "iterates 4 3 ''abcdefghij'' ([''abcd''], ''efghij'')"
    by (simp only: split_body_ex)
  have r: "ClipOrSplitMessage ''abcdefghij'' 4 ''_'' 3 = Inr [''abcd'', ''efgh'', ''ij'']"
    by code_simp
  show ?thesis
    using it r
      segment_accounts_for_every_byte [of 4 3 "''abcdefghij''" "[''abcd'']" "''efghij''" "''_''"
        "[''abcd'', ''efgh'', ''ij'']"]
    by simp
qed

text \<open>
  C5. \<open>ClipMessage\<close> returns a text whose byte length is at most the budget unchanged,
  and it is idempotent: whenever \<open>ClipMessage x b m\<close> returns \<open>y\<close>, clipping \<open>y\<close>
  again with the same budget and marker returns \<open>y\<close>. (When the first call panics there
  is no result to clip again.) The budget is a 64-bit \<open>int\<close> and the text and the marker
  fit in memory together.
\<close>

theorem ClipMessage_idempotent:
  assumes "is_int64 b" and "go_sized x m"
  shows "(int (length x) \<le> b \<longrightarrow> ClipMessage x b m = Inr x)
    \<and> (\<forall>y. ClipMessage x b m = Inr y \<longrightarrow> ClipMessage y b m = Inr y)"
proof (intro conjI allI impI)
  show "int (length x) \<le> b \<Longrightarrow> ClipMessage x b m = Inr x" by (rule ClipMessage_short)
next
  fix y assume y: "ClipMessage x b m = Inr y"
  have "int (length y) \<le> b"
  proof (cases "b < int (length x)")
    case True
    then show ?thesis using ClipMessage_length(2) [OF y assms] by simp
  next
    case False
    then have "y = x" using y by (simp add: ClipMessage_def Let_def)
    then show ?thesis using False by simp
  qed
  then show "ClipMessage y b m = Inr y" by (rule ClipMessage_short)
qed

theorem ClipMessage_idempotent_witness:
  "is_int64 8 \<and> go_sized ''hello world'' ''...''
   \<and> ClipMessage ''hello world'' 8 ''...'' = Inr ''hello...''
   \<and> ClipMessage ''hello...'' 8 ''...'' = Inr ''hello...''
   \<and> ClipMessage ''short'' 10 ''...'' = Inr ''short''"
proof -
  have a: "is_int64 8" by (simp add: is_int64_def)
  have b: "go_sized ''hello world'' ''...''" by (simp add: go_sized_def effective_marker_def)
  have b': "go_sized ''short'' ''...''" by (simp add: go_sized_def effective_marker_def)
  have a': "is_int64 10" by (simp add: is_int64_def)
  have c: "ClipMessage ''hello world'' 8 ''...'' = Inr ''hello...''" by code_simp
  show ?thesis
    using a b c ClipMessage_idempotent [OF a b] ClipMessage_idempotent [OF a' b'] by simp
qed

text \<open>
  C4 (as amended). \<open>ClipMessage\<close> and \<open>ClipOrSplitMessage\<close> return no error value. For
  a text longer than the budget: when the budget is less than the byte length of the
  effective marker, the slice \<open>text[:length-len(clippingMessage)]\<close> of \<open>ClipMessage\<close>
  panics at run time (slice bounds out of range); when the budget equals the length of the
  marker, \<open>ClipMessage\<close> returns the marker alone. \<open>ClipOrSplitMessage\<close> panics exactly
  when the text that remains after its loop is longer than the budget and the budget is
  less than the length of the marker. The budget is a 64-bit \<open>int\<close> and text and marker
  fit in memory together.
\<close>

theorem marker_budget_panic:
  assumes "is_int64 l" and "go_sized t m"
  shows "(int (length t) > l \<and> l < int (length (effective_marker m))
            \<longrightarrow> ClipMessage t l m = Inl SliceBoundsOutOfRange)
       \<and> (int (length t) > l \<and> l = int (length (effective_marker m))
            \<longrightarrow> ClipMessage t l m = Inr (effective_marker m))
       \<and> ((\<exists>e. ClipOrSplitMessage t l m s = Inl e) \<longleftrightarrow>
            int (length (snd (split_loop l s ([], t)))) > l \<and> l < int (length (effective_marker m)))"
proof (intro conjI impI)
  assume "int (length t) > l \<and> l < int (length (effective_marker m))"
  then show "ClipMessage t l m = Inl SliceBoundsOutOfRange"
    using ClipMessage_long_panics assms by simp
next
  assume a: "int (length t) > l \<and> l = int (length (effective_marker m))"
  have "clip_back [] = []" by (subst clip_back.simps) simp
  then show "ClipMessage t l m = Inr (effective_marker m)"
    using a ClipMessage_long_returns [of l t m] assms(1) by simp
next
  let ?r = "snd (split_loop l s ([], t))"
  have "length ?r \<le> length t" using split_loop_remaining_length [of l s "([], t)"] by simp
  then have gs: "go_sized ?r m" using assms(2) by (simp add: go_sized_def)
  have eq: "(\<exists>e. ClipOrSplitMessage t l m s = Inl e) \<longleftrightarrow> (\<exists>e. ClipMessage ?r l m = Inl e)"
    by (auto simp: ClipOrSplitMessage_def split: prod.splits sum.splits)
  show "(\<exists>e. ClipOrSplitMessage t l m s = Inl e) \<longleftrightarrow>
      int (length ?r) > l \<and> l < int (length (effective_marker m))"
  proof (cases "int (length ?r) > l")
    case False
    then have "ClipMessage ?r l m = Inr ?r" by (simp add: ClipMessage_short)
    then show ?thesis using eq False by simp
  next
    case True
    show ?thesis
    proof (cases "l < int (length (effective_marker m))")
      case lt: True
      then show ?thesis using eq True ClipMessage_long_panics [OF True assms(1) gs] by simp
    next
      case ge: False
      then show ?thesis using eq True ClipMessage_long_returns [OF True assms(1)] by simp
    qed
  qed
qed

theorem marker_budget_panic_witness:
  "is_int64 0 \<and> go_sized ''abc'' ''_''
   \<and> ClipMessage ''abc'' 0 ''_'' = Inl SliceBoundsOutOfRange
   \<and> (\<exists>e. ClipOrSplitMessage ''abc'' 0 ''_'' 2 = Inl e)"
proof -
  have a: "is_int64 0" by (simp add: is_int64_def)
  have b: "go_sized ''abc'' ''_''" by (simp add: go_sized_def effective_marker_def)
  have c: "snd (split_loop 0 2 ([], ''abc'')) = ''abc''" by code_simp
  show ?thesis
    using a b c marker_budget_panic [OF a b, of 2]
    by (simp add: effective_marker_def)
qed

theorem marker_budget_counterexample:
  "int (length ''abc'') > 1 \<and> 1 \<le> int (length (effective_marker ''_''))
   \<and> ClipMessage ''abc'' 1 ''_'' = Inr ''_''
   \<and> int (length ''abcdef'') > 2 \<and> 2 \<le> int (length (effective_marker ''_____''))
   \<and> ClipOrSplitMessage ''abcdef'' 2 ''_____'' 10 = Inr [''ab'', ''cd'', ''ef'']"
  by code_simp

text \<open>
  C6 (as amended). Whenever \<open>ClipOrSplitMessage\<close> returns, its result has at least one
  fragment; it has at most \<open>splitMax\<close> fragments when \<open>splitMax\<close> is a 64-bit \<open>int\<close>
  that is at least 1; and it has exactly one fragment when \<open>- 2 ^ 63 < splitMax \<le> 1\<close>,
  which is more than \<open>splitMax\<close> when \<open>splitMax \<le> 0\<close>.
\<close>

theorem segment_count:
  "ClipOrSplitMessage t l m s = Inr res \<Longrightarrow>
     1 \<le> length res
     \<and> (1 \<le> s \<and> is_int64 s \<longrightarrow> int (length res) \<le> s)
     \<and> (- (2 ^ 63) < s \<and> s \<le> 1 \<longrightarrow> length res = 1)"
proof -
  assume "ClipOrSplitMessage t l m s = Inr res"
  then obtain r where res: "res = fst (split_loop l s ([], t)) @ [r]"
    by (auto simp: ClipOrSplitMessage_Inr)
  have c: "int (length (fst (split_loop l s ([], t)))) \<le> max 0 (wrap64 (s - 1))"
    using split_loop_count [of l s "([], t)"] by simp
  have w: "- (2 ^ 63) < s \<and> is_int64 s \<longrightarrow> wrap64 (s - 1) = s - 1"
    by (auto intro!: wrap64_id simp: is_int64_def)
  have a: "1 \<le> length res" using res by simp
  have b: "1 \<le> s \<and> is_int64 s \<longrightarrow> int (length res) \<le> s"
    using res c w by auto
  have "- (2 ^ 63) < s \<and> s \<le> 1 \<longrightarrow> is_int64 s" by (simp add: is_int64_def)
  then have "- (2 ^ 63) < s \<and> s \<le> 1 \<longrightarrow> length res = 1"
    using res c w by auto
  then show ?thesis using a b by blast
qed

theorem segment_count_witness:
  "ClipOrSplitMessage ''abcdefghij'' 4 ''_'' 3 = Inr [''abcd'', ''efgh'', ''ij'']
   \<and> 1 \<le> length [''abcd'', ''efgh'', ''ij''] \<and> (1::int) \<le> 3 \<and> is_int64 3
   \<and> int (length [''abcd'', ''efgh'', ''ij'']) \<le> 3
   \<and> ClipOrSplitMessage ''abcdefghij'' 4 ''_'' 0 = Inr [''abc_'']
   \<and> - (2 ^ 63) < (0::int) \<and> (0::int) \<le> 1 \<and> length [''abc_''] = 1"
proof -
  have r: "ClipOrSplitMessage ''abcdefghij'' 4 ''_'' 3 = Inr [''abcd'', ''efgh'', ''ij'']"
    by code_simp
  have q: "ClipOrSplitMessage ''abcdefghij'' 4 ''_'' 0 = Inr [''abc_'']"
    by code_simp
  have i: "is_int64 3" by (simp add: is_int64_def)
  show ?thesis using r q i segment_count [OF r] segment_count [OF q] by simp
qed

theorem segment_count_counterexample:
  "ClipOrSplitMessage ''a'' 5 ''_'' 0 = Inr [''a''] \<and> \<not> int (length [''a'']) \<le> 0"
  by code_simp

text \<open>
  C9 (as amended). For every \<open>splitMax\<close> with \<open>- 2 ^ 63 < splitMax \<le> 1\<close>,
  \<open>ClipOrSplitMessage\<close> performs no splitting: it returns exactly one fragment, the
  result of \<open>ClipMessage\<close> on the whole text (and panics when \<open>ClipMessage\<close> does).
\<close>

theorem no_split_below_two:
  assumes "- (2 ^ 63) < s" and "s \<le> 1"
  shows "ClipOrSplitMessage t l m s = (case ClipMessage t l m of Inl e \<Rightarrow> Inl e | Inr r \<Rightarrow> Inr [r])"
proof -
  have "is_int64 (s - 1)" using assms by (simp add: is_int64_def)
  then have "wrap64 (s - 1) = s - 1" by (rule wrap64_id)
  then have "split_loop l s ([], t) = ([], t)"
    using assms(2) by (simp add: split_loop_stop)
  then show ?thesis by (simp add: ClipOrSplitMessage_def split: sum.splits)
qed

theorem no_split_below_two_witness:
  "- (2 ^ 63) < (0::int) \<and> (0::int) \<le> 1
   \<and> ClipOrSplitMessage ''abcdef'' 2 ''_'' 0 = Inr [''a_'']
   \<and> ClipMessage ''abcdef'' 2 ''_'' = Inr ''a_''"
proof -
  have c: "ClipMessage ''abcdef'' 2 ''_'' = Inr ''a_''" by code_simp
  show ?thesis using c no_split_below_two [of 0 "''abcdef''" 2 "''_''"] by simp
qed

theorem no_split_below_two_counterexample:
  "(- 9223372036854775808 :: int) \<le> 1
   \<and> ClipOrSplitMessage ''abcdef'' 2 ''_'' (- 9223372036854775808) = Inr [''ab'', ''cd'', ''ef'']
   \<and> ClipMessage ''abcdef'' 2 ''_'' = Inr ''a_''"
  by code_simp

text \<open>
  C3 (as amended). For every buffer that is valid UTF-8 with no U+FFFD encoded in it and
  every offset within it, the backward loop of \<open>ClipMessage\<close> returns the largest index at
  or before the offset at which a character of the buffer ends (a rune boundary, 0
  included), so that the buffer up to that index ends at a complete character, and it
  steps back at most 3 positions; the backward loop of \<open>ClipOrSplitMessage\<close> does the same
  for \<open>length \<ge> 4\<close>. On every buffer the backward loop of \<open>ClipOrSplitMessage\<close> (for
  \<open>0 < length \<le> len(remainingText)\<close>) returns a prefix of the buffer, steps back at most
  3 positions and never to offset 0.
\<close>

theorem back_up_loops:
  "(clean_utf8 buf \<and> off \<le> length buf \<longrightarrow>
      (let k = length (clip_back (take off buf)) in
         clip_back (take off buf) = take k buf
         \<and> k \<in> set (rune_boundaries buf) \<and> ends_complete (take k buf)
         \<and> k \<le> off \<and> off - k \<le> 3
         \<and> (\<forall>j\<in>set (rune_boundaries buf). j \<le> off \<longrightarrow> j \<le> k)))
   \<and> (clean_utf8 buf \<and> 4 \<le> l \<and> l \<le> int (length buf) \<longrightarrow>
      (let k = length (chunk_loop buf l 0 []) in
         chunk_loop buf l 0 [] = take k buf
         \<and> k \<in> set (rune_boundaries buf) \<and> ends_complete (take k buf)
         \<and> int k \<le> l \<and> l - int k \<le> 3
         \<and> (\<forall>j\<in>set (rune_boundaries buf). int j \<le> l \<longrightarrow> j \<le> k)))
   \<and> (0 < l \<and> l \<le> int (length buf) \<longrightarrow>
      (let k = length (chunk_loop buf l 0 []) in
         chunk_loop buf l 0 [] = take k buf \<and> 1 \<le> k \<and> int k \<le> l \<and> l - int k \<le> 3))"
proof (intro conjI impI)
  assume a: "clean_utf8 buf \<and> off \<le> length buf"
  then have c: "clean_utf8 buf" and off: "off \<le> length buf" by simp_all
  note k = clip_back_clean [OF c off]
  have "ends_complete (clip_back (take off buf))"
    using clip_back_ends_well [of "take off buf"] by (auto simp: ends_complete_def)
  then have "ends_complete (take (length (clip_back (take off buf))) buf)" using k(5) by simp
  then show "let k = length (clip_back (take off buf)) in
         clip_back (take off buf) = take k buf
         \<and> k \<in> set (rune_boundaries buf) \<and> ends_complete (take k buf)
         \<and> k \<le> off \<and> off - k \<le> 3
         \<and> (\<forall>j\<in>set (rune_boundaries buf). j \<le> off \<longrightarrow> j \<le> k)"
    unfolding Let_def using k by blast
next
  assume a: "clean_utf8 buf \<and> 4 \<le> l \<and> l \<le> int (length buf)"
  then have c: "clean_utf8 buf" and l4: "4 \<le> l" and ll: "l \<le> int (length buf)" by simp_all
  note k = chunk_loop_clean [OF c l4 ll]
  have "ends_complete (chunk_loop buf l 0 [])" using k(6) by (simp add: ends_complete_def)
  then have "ends_complete (take (length (chunk_loop buf l 0 [])) buf)" using k(5) by simp
  then show "let k = length (chunk_loop buf l 0 []) in
         chunk_loop buf l 0 [] = take k buf
         \<and> k \<in> set (rune_boundaries buf) \<and> ends_complete (take k buf)
         \<and> int k \<le> l \<and> l - int k \<le> 3
         \<and> (\<forall>j\<in>set (rune_boundaries buf). int j \<le> l \<longrightarrow> j \<le> k)"
    unfolding Let_def using k by blast
next
  assume a: "0 < l \<and> l \<le> int (length buf)"
  then have "0 < l" and "l \<le> int (length buf)" by simp_all
  note k = chunk_loop_steps [OF this]
  show "let k = length (chunk_loop buf l 0 []) in
         chunk_loop buf l 0 [] = take k buf \<and> 1 \<le> k \<and> int k \<le> l \<and> l - int k \<le> 3"
    unfolding Let_def using k by blast
qed

theorem back_up_loops_witness:
  "clean_utf8 euro_text \<and> (3::nat) \<le> length euro_text
   \<and> rune_boundaries euro_text = [0, 1, 4, 5]
   \<and> clip_back (take 3 euro_text) = take 1 euro_text
   \<and> ends_complete (take 1 euro_text) \<and> (3::nat) - 1 \<le> 3
   \<and> (4::int) \<le> 4 \<and> 4 \<le> int (length euro_text)
   \<and> chunk_loop euro_text 4 0 [] = take 4 euro_text
   \<and> ends_complete (take 4 euro_text)
   \<and> (0::int) < 3 \<and> 3 \<le> int (length euro_text)
   \<and> chunk_loop euro_text 3 0 [] = take 1 euro_text"
proof -
  have a: "(3::nat) \<le> length euro_text" "4 \<le> int (length euro_text)" "3 \<le> int (length euro_text)"
    by (simp_all add: euro_text_def)
  have b: "take 1 euro_text = ''a''" by (simp add: euro_text_def)
  have k: "length (clip_back (take 3 euro_text)) = 1" by (simp add: euro_clip)
  have "length (take 4 euro_text) = 4" by (simp add: euro_text_def)
  then have k4: "length (chunk_loop euro_text 4 0 []) = 4" by (simp only: euro_chunk_four)
  have "ends_complete (take 1 euro_text)"
    using back_up_loops [of euro_text 3 4] euro_clean a k by (simp add: Let_def)
  moreover have "ends_complete (take 4 euro_text)"
    using back_up_loops [of euro_text 3 4] euro_clean a k4 by (simp add: Let_def)
  ultimately show ?thesis
    using a b euro_clean euro_boundaries euro_clip euro_chunk euro_chunk_four by simp
qed

theorem back_up_loops_counterexample:
  "length (clip_back (take 6 stray_text)) = 1 \<and> \<not> (6::nat) - 1 \<le> 3
   \<and> ends_complete (take 7 replacement_text)
   \<and> DecodeLastRuneInString (take 7 replacement_text) = (0xFFFD, 3)
   \<and> length (clip_back (take 7 replacement_text)) = 1
   \<and> chunk_loop replacement_text 8 0 [] = take 5 replacement_text
   \<and> \<not> ends_complete (take 5 replacement_text)"
  by code_simp

text \<open>
  C10. \<open>RemoveEmptyNewLines\<close> is idempotent, and its output never contains two newline
  characters in a row and neither starts nor ends with a newline.
\<close>

theorem RemoveEmptyNewLines_idempotent:
  "RemoveEmptyNewLines (RemoveEmptyNewLines s) = RemoveEmptyNewLines s
   \<and> \<not> (\<exists>u v. RemoveEmptyNewLines s = u @ [newline, newline] @ v)
   \<and> \<not> (\<exists>v. RemoveEmptyNewLines s = newline # v)
   \<and> \<not> (\<exists>u. RemoveEmptyNewLines s = u @ [newline])"
proof -
  let ?r = "RemoveEmptyNewLines s"
  have n: "\<not> adjacent_newlines ?r"
    by (simp add: RemoveEmptyNewLines_def ReplaceAllString_no_adjacent)
  have sh: "?r = [] \<or> (hd ?r \<noteq> newline \<and> last ?r \<noteq> newline)"
    by (rule RemoveEmptyNewLines_shape)
  have "Trim_byte ?r newline = ?r" using sh by (rule Trim_byte_fixed)
  then have "RemoveEmptyNewLines ?r = ?r"
    using n by (simp add: RemoveEmptyNewLines_def [of ?r] ReplaceAllString_fixed)
  moreover have "\<not> (\<exists>u v. ?r = u @ [newline, newline] @ v)"
    using n adjacent_newlines_iff by blast
  moreover have "\<not> (\<exists>v. ?r = newline # v)" using sh by auto
  moreover have "\<not> (\<exists>u. ?r = u @ [newline])" using sh by auto
  ultimately show ?thesis by blast
qed

text \<open>
  C7. With \<open>maxLineLength = 0\<close>, \<open>GetSubLines\<close> returns exactly the non-empty lines of
  the trimmed message (\<open>strings.TrimSpace\<close>) split on newline, in their order and
  unchanged, whatever the marker; so \<open>GetSubLines("hello\n\nworld", 0, "")\<close> is
  \<open>["hello", "world"]\<close>.
\<close>

theorem GetSubLines_unbounded:
  "GetSubLines message 0 m = filter (\<lambda>l. l \<noteq> []) (Split (TrimSpace message))
   \<and> GetSubLines (''hello'' @ [newline, newline] @ ''world'') 0 [] = [''hello'', ''world'']"
proof
  show "GetSubLines message 0 m = filter (\<lambda>l. l \<noteq> []) (Split (TrimSpace message))"
    by (simp add: GetSubLines_def Let_def foldl_line_step_zero)
  show "GetSubLines (''hello'' @ [newline, newline] @ ''world'') 0 [] = [''hello'', ''world'']"
    by code_simp
qed

text \<open>
  C8 (as amended). No element of the result of \<open>GetSubLines\<close> is an empty string.
  Whenever \<open>ClipOrSplitMessage\<close> returns, its result has an empty element exactly when
  the text is empty (the budget a 64-bit \<open>int\<close>, text and marker fitting in memory
  together).
\<close>

theorem no_empty_fragment:
  "[] \<notin> set (GetSubLines message M m)
   \<and> (is_int64 l \<and> go_sized t m \<and> ClipOrSplitMessage t l m s = Inr res
        \<longrightarrow> ([] \<in> set res \<longleftrightarrow> t = []))"
  using GetSubLines_nonempty ClipOrSplitMessage_empty_fragment by blast

theorem no_empty_fragment_witness:
  "[] \<notin> set (GetSubLines ''abcdef'' 3 ''_'')
   \<and> is_int64 4 \<and> go_sized ''abcdefghij'' ''_''
   \<and> ClipOrSplitMessage ''abcdefghij'' 4 ''_'' 3 = Inr [''abcd'', ''efgh'', ''ij'']
   \<and> [] \<notin> set [''abcd'', ''efgh'', ''ij'']"
proof -
  have a: "is_int64 4" by (simp add: is_int64_def)
  have b: "go_sized ''abcdefghij'' ''_''" by (simp add: go_sized_def effective_marker_def)
  have r: "ClipOrSplitMessage ''abcdefghij'' 4 ''_'' 3 = Inr [''abcd'', ''efgh'', ''ij'']"
    by code_simp
  show ?thesis
    using a b r no_empty_fragment [of "''abcdef''" 3 "''_''" 4 "''abcdefghij''" 3
      "[''abcd'', ''efgh'', ''ij'']"]
    by simp
qed

theorem no_empty_fragment_counterexample:
  "ClipOrSplitMessage [] 5 ''_'' 3 = Inr [[]] \<and> [] \<in> set [[] :: string]"
  by code_simp

end
